theory Spec2Isabelle
  imports Main "HOL-Library.AList" "HOL-Library.Word"
begin

unbundle bit_operations_syntax

section \<open>Python primitives used by solver.py\<close>

text \<open>
  The exceptions the solver can raise. \<open>RuntimeError_no_victim\<close> and
  \<open>RuntimeError_limit\<close> are the two \<open>RuntimeError\<close>s of
  \<open>run_lru_second_chance\<close>, told apart by their messages
  ("todas las colas estan vacias, no hay victima posible" and
  "limite de iteraciones alcanzado sin encontrar victima").
\<close>

datatype py_error =
    ValueError
  | KeyError
  | ZeroDivisionError
  | RuntimeError_no_victim
  | RuntimeError_limit

text \<open>
  \<open>int(s, base)\<close> on a string of digits. The hexadecimal strings reaching the solver are
  the fixed-length digit strings accepted by \<open>input_hex\<close>, the literals of the exercise
  catalogue and the solver's own formatted fields, so the model covers digit strings:
  a character that is no digit of the base, and the empty string, raise \<open>ValueError\<close>.
  The further spellings Python's \<open>int\<close> accepts (sign, surrounding blanks, \<open>0x\<close> prefix,
  underscores) are outside the model.
\<close>

definition digit_val :: "char \<Rightarrow> nat option" where
  "digit_val c =
     (let n = (of_char c :: nat) in
      if 48 \<le> n \<and> n \<le> 57 then Some (n - 48)
      else if 65 \<le> n \<and> n \<le> 90 then Some (n - 55)
      else if 97 \<le> n \<and> n \<le> 122 then Some (n - 87)
      else None)"

fun parse_digits :: "nat \<Rightarrow> nat \<Rightarrow> string \<Rightarrow> py_error + nat" where
  "parse_digits b acc [] = Inr acc"
| "parse_digits b acc (c # cs) =
     (case digit_val c of
        None \<Rightarrow> Inl ValueError
      | Some d \<Rightarrow> if d < b then parse_digits b (acc * b + d) cs else Inl ValueError)"

definition py_int :: "string \<Rightarrow> nat \<Rightarrow> py_error + int" where
  "py_int s b =
     (if s = [] then Inl ValueError
      else case parse_digits b 0 s of Inl e \<Rightarrow> Inl e | Inr n \<Rightarrow> Inr (int n))"

text \<open>
  \<open>format(v, "0wX")\<close> and \<open>format(v, "0wb")\<close>: upper-case digits, zero-padded to width
  \<open>w\<close> (the sign counts towards the width), never truncated.
\<close>

definition digit_char :: "nat \<Rightarrow> char" where
  "digit_char d = ''0123456789ABCDEF'' ! d"

function to_base :: "nat \<Rightarrow> nat \<Rightarrow> string" where
  "to_base b n =
     (if n < b \<or> b < 2 then [digit_char n]
      else to_base b (n div b) @ [digit_char (n mod b)])"
  by pat_completeness auto
termination
  by (relation "measure (\<lambda>(b, n). n)") auto

declare to_base.simps [simp del]

definition zfill_format :: "nat \<Rightarrow> nat \<Rightarrow> int \<Rightarrow> string" where
  "zfill_format b w v =
     (if v < 0
      then (let ds = to_base b (nat (- v))
            in CHR ''-'' # replicate (w - 1 - length ds) (CHR ''0'') @ ds)
      else (let ds = to_base b (nat v)
            in replicate (w - length ds) (CHR ''0'') @ ds))"

text \<open>\<open>str.upper()\<close> on ASCII letters.\<close>

definition upper_char :: "char \<Rightarrow> char" where
  "upper_char c =
     (let n = (of_char c :: nat) in if 97 \<le> n \<and> n \<le> 122 then char_of (n - 32) else c)"

definition upper :: "string \<Rightarrow> string" where
  "upper s = map upper_char s"

section \<open>Constants\<close>

definition PAGE_SIZE :: int where
  "PAGE_SIZE = 2048"

definition PAGES_PER_SEGMENT :: int where
  "PAGES_PER_SEGMENT = 32"

record disk_geometry =
  tracks_per_cyl :: int
  slots_per_track :: int

text \<open>
  \<open>DISK_MODELS\<close> is a module-level dictionary that main.py extends with custom
  geometries, so the orchestrator takes the catalogue as an argument; this is its
  initial value.
\<close>

definition DISK_MODELS :: "(string \<times> disk_geometry) list" where
  "DISK_MODELS =
     [(''3330'', \<lparr>tracks_per_cyl = 19, slots_per_track = 6\<rparr>),
      (''3340'', \<lparr>tracks_per_cyl = 12, slots_per_track = 3\<rparr>),
      (''3350'', \<lparr>tracks_per_cyl = 30, slots_per_track = 8\<rparr>)]"

definition QUEUE_ORDER :: "string list" where
  "QUEUE_ORDER = [''Q00'', ''Q01'', ''Q10'', ''Q11'', ''HQ'']"

section \<open>1. Virtual address decomposition\<close>

record decomposed_address =
  dv_hex :: string
  dv_bin :: string
  S_dec :: int
  S_hex :: string
  P_dec :: int
  P_hex :: string
  d_dec :: int
  d_hex :: string
  d_bin :: string
  num_abs_page :: int
  num_abs_page_hex :: string

definition decompose_virtual_address :: "string \<Rightarrow> py_error + decomposed_address" where
  "decompose_virtual_address dv =
     (case py_int dv 16 of
        Inl e \<Rightarrow> Inl e
      | Inr v \<Rightarrow>
          (let s = (drop_bit 16 v) AND 0xFF;
               p = (drop_bit 11 v) AND 0x1F;
               d = v AND 0x7FF;
               n = s * PAGES_PER_SEGMENT + p
           in Inr \<lparr>dv_hex = zfill_format 16 6 v,
                    dv_bin = zfill_format 2 24 v,
                    S_dec = s,
                    S_hex = zfill_format 16 2 s,
                    P_dec = p,
                    P_hex = zfill_format 16 2 p,
                    d_dec = d,
                    d_hex = zfill_format 16 3 d,
                    d_bin = zfill_format 2 11 d,
                    num_abs_page = n,
                    num_abs_page_hex = zfill_format 16 4 n\<rparr>))"

section \<open>2. Number of cells\<close>

definition calculate_num_cells :: "int \<Rightarrow> int" where
  "calculate_num_cells rsize_kb = rsize_kb div 2"

section \<open>3. Page-table entry analysis\<close>

text \<open>The keys \<open>cell_number\<close> and \<open>dc_hex\<close> exist only when the entry is valid.\<close>

record pte_analysis =
  pte_hex :: string
  pte_bin :: string
  bit_I :: int
  is_page_fault :: bool
  cell_number :: "int option"
  dc_hex :: "string option"

definition analyze_pte :: "string \<Rightarrow> py_error + pte_analysis" where
  "analyze_pte pte =
     (case py_int pte 16 of
        Inl e \<Rightarrow> Inl e
      | Inr v \<Rightarrow>
          (let bit_i = (drop_bit 2 v) AND 1;
               fault = (bit_i = 1);
               result = \<lparr>pte_hex = zfill_format 16 4 v,
                         pte_bin = zfill_format 2 16 v,
                         bit_I = bit_i,
                         is_page_fault = fault,
                         cell_number = None,
                         dc_hex = None\<rparr>
           in if \<not> fault
              then (let cell = drop_bit 3 v;
                        dc = cell * PAGE_SIZE
                    in Inr (result\<lparr>cell_number := Some cell,
                                    dc_hex := Some (zfill_format 16 6 dc)\<rparr>))
              else Inr result))"

section \<open>4. Real address\<close>

record real_address =
  dc_dec :: int
  ra_dc_hex :: string
  dr_dec :: int
  dr_hex :: string
  dr_bin :: string

definition calculate_real_address :: "int \<Rightarrow> string \<Rightarrow> py_error + real_address" where
  "calculate_real_address cell dbin =
     (let dc = cell * PAGE_SIZE in
      case py_int dbin 2 of
        Inl e \<Rightarrow> Inl e
      | Inr d \<Rightarrow>
          (let dr = dc + d
           in Inr \<lparr>dc_dec = dc,
                    ra_dc_hex = zfill_format 16 6 dc,
                    dr_dec = dr,
                    dr_hex = zfill_format 16 6 dr,
                    dr_bin = zfill_format 2 24 dr\<rparr>))"

section \<open>5. Second-chance LRU\<close>

text \<open>
  \<open>run_lru_second_chance\<close> receives a reference to a dictionary from queue names to list
  objects, copies it twice with \<open>copy.deepcopy\<close>, and then assigns to the keys of its own
  copy and pops from and appends to that copy's queues. Dictionaries and queues are mutable
  objects that may be shared, so both live in an explicit store: \<open>list_heap\<close> holds every
  list object and \<open>dict_heap\<close> every dictionary object, an address is an index, and a
  dictionary object maps each key to the address of a list (in insertion order, as
  Python's \<open>dict\<close> does). Allocating appends to the store. Queue entries are the immutable
  tuples \<open>(cell, R, C)\<close>.
\<close>

type_synonym entry = "int \<times> int \<times> int"
type_synonym addr = nat
type_synonym heap = "entry list list"
type_synonym qdict = "(string \<times> addr) list"

record store =
  list_heap :: heap
  dict_heap :: "qdict list"

text \<open>\<open>q[k]\<close> on the contents of a dictionary object, and \<open>q[k] = v\<close> on the object.\<close>

definition getitem :: "qdict \<Rightarrow> string \<Rightarrow> addr" where
  "getitem q k = the (map_of q k)"

definition setitem :: "addr \<Rightarrow> string \<Rightarrow> addr \<Rightarrow> store \<Rightarrow> store" where
  "setitem qa k v s = s\<lparr>dict_heap := (dict_heap s)[qa := AList.update k v (dict_heap s ! qa)]\<rparr>"

text \<open>
  \<open>copy.deepcopy\<close> of a dictionary: a new dictionary object, in which every list object
  is copied once; the memo keeps two keys that share a list sharing its copy.
\<close>

fun deepcopy_items :: "qdict \<Rightarrow> (addr \<rightharpoonup> addr) \<Rightarrow> heap \<Rightarrow> qdict \<times> heap" where
  "deepcopy_items [] memo h = ([], h)"
| "deepcopy_items ((k, a) # kvs) memo h =
     (case memo a of
        Some a' \<Rightarrow>
          (let (d, h') = deepcopy_items kvs memo h in ((k, a') # d, h'))
      | None \<Rightarrow>
          (let a' = length h;
               (d, h') = deepcopy_items kvs (memo(a \<mapsto> a')) (h @ [h ! a])
           in ((k, a') # d, h')))"

definition deepcopy :: "addr \<Rightarrow> store \<Rightarrow> addr \<times> store" where
  "deepcopy qa s =
     (let (d, h') = deepcopy_items (dict_heap s ! qa) Map.empty (list_heap s)
      in (length (dict_heap s), \<lparr>list_heap = h', dict_heap = dict_heap s @ [d]\<rparr>))"

text \<open>
  \<open>q.setdefault(name, [])\<close>: the fresh empty list is stored only when the key is missing
  (Python builds it in both cases and drops it when the key exists).
\<close>

definition setdefault_empty :: "addr \<Rightarrow> string \<Rightarrow> store \<Rightarrow> store" where
  "setdefault_empty qa k s =
     (case map_of (dict_heap s ! qa) k of
        Some a \<Rightarrow> s
      | None \<Rightarrow>
          \<lparr>list_heap = list_heap s @ [[]],
           dict_heap = (dict_heap s)[qa := dict_heap s ! qa @ [(k, length (list_heap s))]]\<rparr>)"

text \<open>
  The entries of the \<open>steps\<close> log, by their \<open>action\<close>. A \<open>second_chance\<close> step also
  records the constants \<open>R_before = 1\<close> and \<open>R_after = 0\<close>. In the result,
  \<open>queues_before\<close> and \<open>queues_after\<close> are references to dictionary objects.
\<close>

datatype step = rotate_queues | victim_found int int int | second_chance int

record lru_result =
  victim_cell :: int
  victim_R :: int
  victim_C :: int
  needs_pageout :: bool
  steps :: "step list"
  queues_before :: addr
  queues_after :: addr

text \<open>
  One pass through the body of the \<open>for\<close> loop either returns, raises, or falls through
  to the next iteration (\<open>continue\<close>, or the end of the body); \<open>qa\<close> is the reference
  held by the local variable \<open>q\<close>. After the \<open>setdefault\<close> loop every name of
  \<open>QUEUE_ORDER\<close> is a key of \<open>q\<close> and every address in \<open>q\<close> is allocated (lemmas
  \<open>run_lru_unfold\<close> and \<open>lru_iteration_Continue\<close>), so the lookups of the body
  cannot raise \<open>KeyError\<close>.
\<close>

datatype lru_outcome =
    Return lru_result store
  | Raise py_error store
  | Continue store "step list"

definition lru_iteration :: "addr \<Rightarrow> addr \<Rightarrow> store \<Rightarrow> step list \<Rightarrow> lru_outcome" where
  "lru_iteration qb qa s stp =
     (if list_heap s ! getitem (dict_heap s ! qa) ''Q00'' = [] then
        (if \<not> list_ex (\<lambda>k. list_heap s ! getitem (dict_heap s ! qa) k \<noteq> []) (tl QUEUE_ORDER)
         then Raise RuntimeError_no_victim s
         else
           (let stp1 = stp @ [rotate_queues];
                s1 = setitem qa ''Q00'' (getitem (dict_heap s ! qa) ''Q01'') s;
                s2 = setitem qa ''Q01'' (getitem (dict_heap s1 ! qa) ''Q10'') s1;
                s3 = setitem qa ''Q10'' (getitem (dict_heap s2 ! qa) ''Q11'') s2;
                s4 = setitem qa ''Q11'' (getitem (dict_heap s3 ! qa) ''HQ'') s3;
                s5 = setitem qa ''HQ'' (length (list_heap s4)) (s4\<lparr>list_heap := list_heap s4 @ [[]]\<rparr>)
            in Continue s5 stp1))
      else
        (let a = getitem (dict_heap s ! qa) ''Q00'';
             (cell, r, c) = hd (list_heap s ! a)
         in if r = 0 then
              (let s1 = s\<lparr>list_heap := (list_heap s)[a := tl (list_heap s ! a)]\<rparr>;
                   stp1 = stp @ [victim_found cell r c]
               in Return \<lparr>victim_cell = cell, victim_R = r, victim_C = c,
                           needs_pageout = (c = 1), steps = stp1,
                           queues_before = qb, queues_after = qa\<rparr> s1)
            else
              (let s1 = s\<lparr>list_heap := (list_heap s)[a := tl (list_heap s ! a)]\<rparr>;
                   s2 = s1\<lparr>list_heap := (list_heap s1)[a := list_heap s1 ! a @ [(cell, 0, c)]]\<rparr>;
                   stp1 = stp @ [second_chance cell]
               in Continue s2 stp1)))"

text \<open>\<open>for _ in range(max_iterations)\<close>, then the \<open>raise\<close> after the loop.\<close>

fun lru_loop :: "nat \<Rightarrow> addr \<Rightarrow> addr \<Rightarrow> store \<Rightarrow> step list \<Rightarrow> (py_error + lru_result) \<times> store" where
  "lru_loop 0 qb qa s stp = (Inl RuntimeError_limit, s)"
| "lru_loop (Suc n) qb qa s stp =
     (case lru_iteration qb qa s stp of
        Return r s' \<Rightarrow> (Inr r, s')
      | Raise e s' \<Rightarrow> (Inl e, s')
      | Continue s' stp' \<Rightarrow> lru_loop n qb qa s' stp')"

definition run_lru_second_chance :: "addr \<Rightarrow> store \<Rightarrow> (py_error + lru_result) \<times> store" where
  "run_lru_second_chance queues s =
     (let (qb, s1) = deepcopy queues s;
          (qa, s2) = deepcopy queues s1;
          s3 = fold (setdefault_empty qa) QUEUE_ORDER s2
      in lru_loop 1000 qb qa s3 [])"

subsection \<open>Reading the store\<close>

text \<open>
  On the contents of a dictionary object and a list heap: \<open>contents\<close> is the dictionary
  by value; \<open>queue_of\<close> is one queue by name, empty when the key is absent;
  \<open>valid_refs\<close> says that every reference of the dictionary is allocated (no dangling
  reference exists in Python); \<open>refs_within\<close> bounds the references from below as well;
  \<open>has_queues\<close> says that the five queue names are keys; \<open>rotated\<close> is the dictionary
  after the five assignments of a rotation. \<open>contents_at\<close>, \<open>queue_at\<close>, \<open>valid_at\<close>
  and \<open>has_queues_at\<close> read a dictionary object of the store through its reference.
\<close>

definition contents :: "heap \<Rightarrow> qdict \<Rightarrow> (string \<times> entry list) list" where
  "contents h d = map (\<lambda>(k, a). (k, h ! a)) d"

definition valid_refs :: "heap \<Rightarrow> qdict \<Rightarrow> bool" where
  "valid_refs h d = list_all (\<lambda>(k, a). a < length h) d"

definition queue_of :: "heap \<Rightarrow> qdict \<Rightarrow> string \<Rightarrow> entry list" where
  "queue_of h d k = (case map_of d k of Some a \<Rightarrow> h ! a | None \<Rightarrow> [])"

definition refs_within :: "nat \<Rightarrow> heap \<Rightarrow> qdict \<Rightarrow> bool" where
  "refs_within b h q = (\<forall>(k, a) \<in> set q. b \<le> a \<and> a < length h)"

definition has_queues :: "qdict \<Rightarrow> bool" where
  "has_queues q = (\<forall>k \<in> set QUEUE_ORDER. map_of q k \<noteq> None)"

definition rotated :: "qdict \<Rightarrow> addr \<Rightarrow> qdict" where
  "rotated q fresh =
     AList.update ''HQ'' fresh
       (AList.update ''Q11'' (getitem q ''HQ'')
         (AList.update ''Q10'' (getitem q ''Q11'')
           (AList.update ''Q01'' (getitem q ''Q10'')
             (AList.update ''Q00'' (getitem q ''Q01'') q))))"

definition contents_at :: "store \<Rightarrow> addr \<Rightarrow> (string \<times> entry list) list" where
  "contents_at s qa = contents (list_heap s) (dict_heap s ! qa)"

definition queue_at :: "store \<Rightarrow> addr \<Rightarrow> string \<Rightarrow> entry list" where
  "queue_at s qa k = queue_of (list_heap s) (dict_heap s ! qa) k"

definition valid_at :: "store \<Rightarrow> addr \<Rightarrow> bool" where
  "valid_at s qa = (qa < length (dict_heap s) \<and> valid_refs (list_heap s) (dict_heap s ! qa))"

definition has_queues_at :: "store \<Rightarrow> addr \<Rightarrow> bool" where
  "has_queues_at s qa = has_queues (dict_heap s ! qa)"

subsection \<open>What the evictor computes\<close>

text \<open>
  The outcome of a run in closed form, from the five queues in \<open>QUEUE_ORDER\<close>: the tiers
  rotate once for every empty queue in front of the first non-empty one, which becomes
  \<open>Q00\<close>; its leading entries with \<open>R\<close> set each get a second chance and move to the
  tail with \<open>R = 0\<close>; the victim is the entry then at the head. Each rotation, each second
  chance and the victim take one iteration and log one step.
\<close>

definition tiers :: "store \<Rightarrow> addr \<Rightarrow> entry list list" where
  "tiers s qa = map (queue_at s qa) QUEUE_ORDER"

definition referenced :: "entry \<Rightarrow> bool" where
  "referenced e = (fst (snd e) \<noteq> 0)"

definition unreferenced :: "entry \<Rightarrow> entry" where
  "unreferenced e = (fst e, 0, snd (snd e))"

definition front_queue :: "entry list list \<Rightarrow> entry list" where
  "front_queue ts = hd (dropWhile (\<lambda>q. q = []) ts)"

definition expected_rotations :: "entry list list \<Rightarrow> nat" where
  "expected_rotations ts = length (takeWhile (\<lambda>q. q = []) ts)"

definition expected_chances :: "entry list list \<Rightarrow> entry list" where
  "expected_chances ts = takeWhile referenced (front_queue ts)"

definition expected_victim :: "entry list list \<Rightarrow> entry" where
  "expected_victim ts =
     hd (dropWhile referenced (front_queue ts) @ map unreferenced (expected_chances ts))"

definition expected_steps :: "entry list list \<Rightarrow> step list" where
  "expected_steps ts =
     replicate (expected_rotations ts) rotate_queues
     @ map (\<lambda>e. second_chance (fst e)) (expected_chances ts)
     @ [victim_found (fst (expected_victim ts)) 0 (snd (snd (expected_victim ts)))]"

section \<open>6. Evicted page\<close>

record evicted_page =
  pfte_hex :: string
  ev_num_abs_page :: int
  segment :: int
  page :: int

definition identify_evicted_page :: "string \<Rightarrow> py_error + evicted_page" where
  "identify_evicted_page pfte =
     (case py_int pfte 16 of
        Inl e \<Rightarrow> Inl e
      | Inr num_abs \<Rightarrow>
          Inr \<lparr>pfte_hex = upper pfte,
               ev_num_abs_page = num_abs,
               segment = num_abs div PAGES_PER_SEGMENT,
               page = num_abs mod PAGES_PER_SEGMENT\<rparr>)"

section \<open>7. External page address\<close>

record epa =
  cylinder :: int
  track :: int
  slot :: int
  slots_per_cyl :: int
  epa_slots_per_track :: int

text \<open>
  Python's \<open>//\<close> and \<open>%\<close> round towards minus infinity, as \<open>div\<close> and \<open>mod\<close> on
  \<open>int\<close> do, and raise \<open>ZeroDivisionError\<close> on a zero divisor. The first division is
  by \<open>slots_per_cyl\<close>; when it is not zero, \<open>slots_per_track\<close> is not zero either.
\<close>

definition py_floordiv :: "int \<Rightarrow> int \<Rightarrow> py_error + int" where
  "py_floordiv a b = (if b = 0 then Inl ZeroDivisionError else Inr (a div b))"

definition py_mod :: "int \<Rightarrow> int \<Rightarrow> py_error + int" where
  "py_mod a b = (if b = 0 then Inl ZeroDivisionError else Inr (a mod b))"

definition calculate_epa :: "int \<Rightarrow> int \<Rightarrow> int \<Rightarrow> py_error + epa" where
  "calculate_epa n tpc spt =
     (let spc = tpc * spt in
      case py_floordiv n spc of Inl e \<Rightarrow> Inl e | Inr cyl \<Rightarrow>
     (case py_mod n spc of Inl e \<Rightarrow> Inl e | Inr remainder \<Rightarrow>
     (case py_floordiv remainder spt of Inl e \<Rightarrow> Inl e | Inr trk \<Rightarrow>
     (case py_mod remainder spt of Inl e \<Rightarrow> Inl e | Inr slt \<Rightarrow>
        Inr \<lparr>cylinder = cyl, track = trk, slot = slt,
             slots_per_cyl = spc, epa_slots_per_track = spt\<rparr>))))"

section \<open>8. Frame start address\<close>

record dc_result =
  dcr_dec :: int
  dcr_hex :: string
  dcr_bin :: string

definition calculate_dc :: "int \<Rightarrow> dc_result" where
  "calculate_dc cell =
     (let dc = cell * PAGE_SIZE
      in \<lparr>dcr_dec = dc, dcr_hex = zfill_format 16 6 dc, dcr_bin = zfill_format 2 24 dc\<rparr>)"

section \<open>9. New page-table entries\<close>

record new_pte =
  np_cell_number :: int
  bi_0_hex :: string
  bi_0_bin :: string
  bi_1_hex :: string
  bi_1_bin :: string

definition build_new_pte :: "int \<Rightarrow> new_pte" where
  "build_new_pte cell =
     (let upper_13 = cell AND 0x1FFF;
          bi_0 = (push_bit 3 upper_13) OR 0;
          bi_1 = (push_bit 3 upper_13) OR 4
      in \<lparr>np_cell_number = cell,
          bi_0_hex = zfill_format 16 4 bi_0,
          bi_0_bin = zfill_format 2 16 bi_0,
          bi_1_hex = zfill_format 16 4 bi_1,
          bi_1_bin = zfill_format 2 16 bi_1\<rparr>)"

section \<open>10. Full exercise\<close>

text \<open>
  The result dictionary is filled step by step; the keys that only the page-fault branch
  sets are options. \<open>eviction_steps\<close> is the block guarded by
  \<open>if pfte_bytes_45_hex is not None\<close> (steps 5 and 6a); in the no-fault branch
  \<open>pte["cell_number"]\<close> would raise \<open>KeyError\<close> were the key missing. \<open>queues\<close> is
  \<open>None\<close> or a reference to the caller's dictionary, and the store is threaded through
  because the evictor allocates and mutates its copies.
\<close>

record page_transfer =
  pt_epa :: epa
  pt_dc :: dc_result

record translation_result =
  address :: decomposed_address
  num_cells :: int
  pte :: pte_analysis
  disk_model :: string
  page_fault :: bool
  lru :: "lru_result option"
  evicted :: "evicted_page option"
  page_out :: "page_transfer option"
  page_in :: "page_transfer option"
  new_ptes :: "new_pte option"
  real_addr :: real_address

definition eviction_steps ::
  "disk_geometry \<Rightarrow> lru_result \<Rightarrow> string option
     \<Rightarrow> py_error + (evicted_page option \<times> page_transfer option)" where
  "eviction_steps disk l pfte =
     (case pfte of
        None \<Rightarrow> Inr (None, None)
      | Some s \<Rightarrow>
          (case identify_evicted_page s of
             Inl e \<Rightarrow> Inl e
           | Inr ev \<Rightarrow>
               if needs_pageout l then
                 (case calculate_epa (ev_num_abs_page ev) (tracks_per_cyl disk)
                         (slots_per_track disk) of
                    Inl e \<Rightarrow> Inl e
                  | Inr epa_out \<Rightarrow>
                      Inr (Some ev,
                           Some \<lparr>pt_epa = epa_out, pt_dc = calculate_dc (victim_cell l)\<rparr>))
               else Inr (Some ev, None)))"

definition solve_full_exercise ::
  "(string \<times> disk_geometry) list \<Rightarrow> string \<Rightarrow> string \<Rightarrow> int \<Rightarrow> string
     \<Rightarrow> addr option \<Rightarrow> string option \<Rightarrow> store
     \<Rightarrow> (py_error + translation_result) \<times> store" where
  "solve_full_exercise models dv pte_s rsize_kb dm queues pfte h =
     (case map_of models dm of
        None \<Rightarrow> (Inl KeyError, h)
      | Some disk \<Rightarrow>
     (case decompose_virtual_address dv of
        Inl e \<Rightarrow> (Inl e, h)
      | Inr addr \<Rightarrow>
     (let cells = calculate_num_cells rsize_kb in
     (case analyze_pte pte_s of
        Inl e \<Rightarrow> (Inl e, h)
      | Inr p \<Rightarrow>
     (if \<not> is_page_fault p then
        (case cell_number p of
           None \<Rightarrow> (Inl KeyError, h)
         | Some cell \<Rightarrow>
        (case calculate_real_address cell (d_bin addr) of
           Inl e \<Rightarrow> (Inl e, h)
         | Inr dr \<Rightarrow>
             (Inr \<lparr>address = addr, num_cells = cells, pte = p, disk_model = dm,
                   page_fault = False, lru = None, evicted = None, page_out = None,
                   page_in = None, new_ptes = None, real_addr = dr\<rparr>, h)))
      else
        (case queues of
           None \<Rightarrow> (Inl ValueError, h)
         | Some qs \<Rightarrow>
        (case run_lru_second_chance qs h of
           (Inl e, h') \<Rightarrow> (Inl e, h')
         | (Inr l, h') \<Rightarrow>
        (case eviction_steps disk l pfte of
           Inl e \<Rightarrow> (Inl e, h')
         | Inr (ev, po) \<Rightarrow>
        (case calculate_epa (num_abs_page addr) (tracks_per_cyl disk) (slots_per_track disk) of
           Inl e \<Rightarrow> (Inl e, h')
         | Inr epa_in \<Rightarrow>
        (let dc_in = calculate_dc (victim_cell l);
             np = build_new_pte (victim_cell l)
         in
        (case calculate_real_address (victim_cell l) (d_bin addr) of
           Inl e \<Rightarrow> (Inl e, h')
         | Inr dr \<Rightarrow>
             (Inr \<lparr>address = addr, num_cells = cells, pte = p, disk_model = dm,
                   page_fault = True, lru = Some l, evicted = ev, page_out = po,
                   page_in = Some \<lparr>pt_epa = epa_in, pt_dc = dc_in\<rparr>,
                   new_ptes = Some np, real_addr = dr\<rparr>, h'))))))))))))"

section \<open>Bit masks and digit strings\<close>

lemma and_255: "(x::int) AND 0xFF = x mod 256"
  using take_bit_eq_mask[of 8 x] by (simp add: mask_eq_exp_minus_1 take_bit_eq_mod)
lemma and_31: "(x::int) AND 0x1F = x mod 32"
  using take_bit_eq_mask[of 5 x] by (simp add: mask_eq_exp_minus_1 take_bit_eq_mod)
lemma and_2047: "(x::int) AND 0x7FF = x mod 2048"
  using take_bit_eq_mask[of 11 x] by (simp add: mask_eq_exp_minus_1 take_bit_eq_mod)
lemma and_8191: "(x::int) AND 0x1FFF = x mod 8192"
  using take_bit_eq_mask[of 13 x] by (simp add: mask_eq_exp_minus_1 take_bit_eq_mod)
lemma and_1: "(x::int) AND 1 = x mod 2"
  using take_bit_eq_mask[of 1 x] by (simp add: mask_eq_exp_minus_1 take_bit_eq_mod)

lemma digit_val_digit_char: "d < 16 \<Longrightarrow> digit_val (digit_char d) = Some d"
proof -
  assume "d < 16"
  then have "d = 0 \<or> d = 1 \<or> d = 2 \<or> d = 3 \<or> d = 4 \<or> d = 5 \<or> d = 6 \<or> d = 7
      \<or> d = 8 \<or> d = 9 \<or> d = 10 \<or> d = 11 \<or> d = 12 \<or> d = 13 \<or> d = 14 \<or> d = 15"
    by presburger
  then show ?thesis
    by (elim disjE) (simp_all add: digit_char_def digit_val_def)
qed

lemma parse_digits_append:
  "parse_digits b acc (xs @ ys) =
     (case parse_digits b acc xs of Inl e \<Rightarrow> Inl e | Inr a \<Rightarrow> parse_digits b a ys)"
  by (induction xs arbitrary: acc) (auto split: option.splits)

lemma parse_digits_to_base:
  "2 \<le> b \<Longrightarrow> b \<le> 16 \<Longrightarrow> parse_digits b 0 (to_base b n) = Inr n"
proof (induction b n rule: to_base.induct)
  case (1 b n)
  show ?case
  proof (cases "n < b")
    case True
    then have "to_base b n = [digit_char n]" by (simp add: to_base.simps)
    moreover have "digit_val (digit_char n) = Some n"
      using True 1(3) by (intro digit_val_digit_char) simp
    ultimately show ?thesis using True by simp
  next
    case False
    then have tb: "to_base b n = to_base b (n div b) @ [digit_char (n mod b)]"
      using 1(2) by (subst to_base.simps) simp
    have ih: "parse_digits b 0 (to_base b (n div b)) = Inr (n div b)"
      using 1(1) False 1(2,3) by simp
    have lt: "n mod b < b" using 1(2) by simp
    then have dv: "digit_val (digit_char (n mod b)) = Some (n mod b)"
      using 1(3) by (intro digit_val_digit_char) simp
    show ?thesis
      unfolding tb parse_digits_append ih using dv lt by simp
  qed
qed

lemma parse_digits_zeros:
  "0 < b \<Longrightarrow> parse_digits b 0 (replicate k (CHR ''0'') @ xs) = parse_digits b 0 xs"
  by (induction k) (simp_all add: digit_val_def)

lemma to_base_nonempty: "to_base b n \<noteq> []"
  by (subst to_base.simps) simp

lemma py_int_zfill_format:
  assumes "0 \<le> v" and "2 \<le> b" and "b \<le> 16"
  shows "py_int (zfill_format b w v) b = Inr v"
proof -
  have "zfill_format b w v =
          replicate (w - length (to_base b (nat v))) (CHR ''0'') @ to_base b (nat v)"
    using assms(1) by (simp add: zfill_format_def Let_def)
  moreover have "parse_digits b 0 \<dots> = Inr (nat v)"
    using assms(2,3) by (simp add: parse_digits_zeros parse_digits_to_base)
  ultimately show ?thesis
    using assms(1) by (simp add: py_int_def to_base_nonempty)
qed

section \<open>Address decomposition\<close>

lemma fields_recompose:
  fixes v :: int
  assumes "0 \<le> v" "v < 2 ^ 24"
  shows "((v div 65536) mod 256) * 2 ^ 16 + ((v div 2048) mod 32) * 2 ^ 11 + v mod 2048 = v"
proof -
  define a where "a = v div 2048"
  have s: "v div 65536 = a div 32"
    unfolding a_def using zdiv_zmult2_eq[of 32 v 2048] by simp
  have "0 \<le> v div 65536" "v div 65536 < 256" using assms by simp_all
  then have m: "(v div 65536) mod 256 = a div 32" using s by simp
  have e: "a = 32 * (a div 32) + a mod 32" by simp
  have f: "v = 2048 * a + v mod 2048" unfolding a_def by simp
  have P: "(v div 2048) mod 32 = a mod 32" by (simp only: a_def)
  have g: "(a div 32) * 65536 + (a mod 32) * 2048 + v mod 2048 = v"
    using e f by linarith
  have pw: "(2::int) ^ 16 = 65536" "(2::int) ^ 11 = 2048" by simp_all
  show ?thesis unfolding m P pw by (rule g)
qed

lemma abs_page_range:
  fixes v :: int
  shows "0 \<le> ((v div 65536) mod 256) * 32 + (v div 2048) mod 32"
    and "((v div 65536) mod 256) * 32 + (v div 2048) mod 32 \<le> 8191"
proof -
  have "0 \<le> (v div 65536) mod 256" "(v div 65536) mod 256 < 256"
       "0 \<le> (v div 2048) mod 32" "(v div 2048) mod 32 < 32" by simp_all
  then show "0 \<le> ((v div 65536) mod 256) * 32 + (v div 2048) mod 32"
    and "((v div 65536) mod 256) * 32 + (v div 2048) mod 32 \<le> 8191" by linarith+
qed

lemma decompose_fields:
  assumes "py_int dv 16 = Inr v"
  shows "\<exists>r. decompose_virtual_address dv = Inr r
           \<and> S_dec r = (v div 65536) mod 256
           \<and> P_dec r = (v div 2048) mod 32
           \<and> d_dec r = v mod 2048
           \<and> num_abs_page r = S_dec r * 32 + P_dec r"
  using assms
  by (simp add: decompose_virtual_address_def Let_def PAGES_PER_SEGMENT_def
      and_255 and_31 and_2047 drop_bit_eq_div)

text \<open>
  C3. For every 24-bit value \<open>v\<close>, given as a hexadecimal string, the decomposition
  returns fields with \<open>segment * 2^16 + page * 2^11 + offset = v\<close>, the segment in 8
  bits, the page in 5 and the offset in 11, and the absolute page number
  \<open>segment * 32 + page\<close> lies in \<open>[0, 8191]\<close>.
\<close>

theorem decompose_recomposes:
  assumes "py_int dv 16 = Inr v" and "0 \<le> v" and "v < 2 ^ 24"
  shows "\<exists>r. decompose_virtual_address dv = Inr r
           \<and> S_dec r * 2 ^ 16 + P_dec r * 2 ^ 11 + d_dec r = v
           \<and> 0 \<le> S_dec r \<and> S_dec r < 2 ^ 8 \<and> 0 \<le> P_dec r \<and> P_dec r < 2 ^ 5
           \<and> 0 \<le> d_dec r \<and> d_dec r < 2 ^ 11
           \<and> num_abs_page r = S_dec r * 32 + P_dec r
           \<and> 0 \<le> num_abs_page r \<and> num_abs_page r \<le> 8191"
proof -
  from decompose_fields[OF assms(1)] obtain r where
    r: "decompose_virtual_address dv = Inr r"
    and s: "S_dec r = (v div 65536) mod 256"
    and p: "P_dec r = (v div 2048) mod 32"
    and d: "d_dec r = v mod 2048"
    and n: "num_abs_page r = S_dec r * 32 + P_dec r"
    by blast
  have sum: "S_dec r * 2 ^ 16 + P_dec r * 2 ^ 11 + d_dec r = v"
    unfolding s p d by (rule fields_recompose[OF assms(2,3)])
  have bs: "0 \<le> S_dec r" "S_dec r < 2 ^ 8" unfolding s by simp_all
  have bp: "0 \<le> P_dec r" "P_dec r < 2 ^ 5" unfolding p by simp_all
  have bd: "0 \<le> d_dec r" "d_dec r < 2 ^ 11" unfolding d by simp_all
  have bn: "0 \<le> num_abs_page r" "num_abs_page r \<le> 8191"
    unfolding n s p using abs_page_range[of v] by simp_all
  show ?thesis using r sum bs bp bd n bn by blast
qed

theorem decompose_recomposes_witness:
  "\<exists>r. decompose_virtual_address ''03FFA3'' = Inr r
     \<and> S_dec r * 2 ^ 16 + P_dec r * 2 ^ 11 + d_dec r = 262051
     \<and> 0 \<le> S_dec r \<and> S_dec r < 2 ^ 8 \<and> 0 \<le> P_dec r \<and> P_dec r < 2 ^ 5
     \<and> 0 \<le> d_dec r \<and> d_dec r < 2 ^ 11
     \<and> num_abs_page r = S_dec r * 32 + P_dec r
     \<and> 0 \<le> num_abs_page r \<and> num_abs_page r \<le> 8191"
proof -
  have p: "py_int ''03FFA3'' 16 = Inr 262051"
    by (simp add: py_int_def digit_val_def)
  show ?thesis using decompose_recomposes[OF p] by simp
qed

text \<open>
  C8, as the code has it. The value is not checked against 24 bits: \<open>"1000000"\<close>
  (\<open>2^24\<close>) is decomposed, into the fields of 0.
\<close>

theorem decompose_out_of_range_counterexample:
  "py_int ''1000000'' 16 = Inr (2 ^ 24) \<and>
   \<not> isl (decompose_virtual_address ''1000000'') \<and>
   S_dec (projr (decompose_virtual_address ''1000000'')) = 0 \<and>
   P_dec (projr (decompose_virtual_address ''1000000'')) = 0 \<and>
   d_dec (projr (decompose_virtual_address ''1000000'')) = 0"
proof -
  have p: "py_int ''1000000'' 16 = Inr 16777216"
    by (simp add: py_int_def digit_val_def)
  show ?thesis
    by (simp add: decompose_virtual_address_def p Let_def PAGES_PER_SEGMENT_def
        and_255 and_31 and_2047 drop_bit_eq_div)
qed

text \<open>
  C8, amended. Every digit string is decomposed, whatever its value: the fields are
  those of the value's low 24 bits, and no error is raised.
\<close>

theorem decompose_no_range_check:
  assumes "py_int dv 16 = Inr v"
  shows "\<exists>r. decompose_virtual_address dv = Inr r
           \<and> S_dec r = (v mod 2 ^ 24) div 2 ^ 16
           \<and> P_dec r = ((v mod 2 ^ 24) div 2 ^ 11) mod 2 ^ 5
           \<and> d_dec r = (v mod 2 ^ 24) mod 2 ^ 11
           \<and> num_abs_page r = S_dec r * 32 + P_dec r"
proof -
  from decompose_fields[OF assms] obtain r where
    r: "decompose_virtual_address dv = Inr r"
    and s: "S_dec r = (v div 65536) mod 256"
    and p: "P_dec r = (v div 2048) mod 32"
    and d: "d_dec r = v mod 2048"
    and n: "num_abs_page r = S_dec r * 32 + P_dec r"
    by blast
  have s': "(v div 65536) mod 256 = (v mod 2 ^ 24) div 2 ^ 16"
    using div_exp_mod_exp_eq[of v 16 8] by simp
  have d': "v mod 2048 = (v mod 2 ^ 24) mod 2 ^ 11"
    using mod_exp_eq[of v 24 11] by simp
  have "(v mod 2 ^ 24) div 2 ^ 11 = (v div 2 ^ 11) mod 2 ^ 13"
    using div_exp_mod_exp_eq[of v 11 13] by simp
  then have p': "(v div 2048) mod 32 = ((v mod 2 ^ 24) div 2 ^ 11) mod 2 ^ 5"
    using mod_exp_eq[of "v div 2 ^ 11" 13 5] by simp
  show ?thesis using r trans[OF s s'] trans[OF p p'] trans[OF d d'] n by blast
qed

theorem decompose_no_range_check_witness:
  "\<exists>r. decompose_virtual_address ''1FFFFFF'' = Inr r
     \<and> S_dec r = (33554431 mod 2 ^ 24) div 2 ^ 16
     \<and> P_dec r = ((33554431 mod 2 ^ 24) div 2 ^ 11) mod 2 ^ 5
     \<and> d_dec r = (33554431 mod 2 ^ 24) mod 2 ^ 11
     \<and> num_abs_page r = S_dec r * 32 + P_dec r"
proof -
  have p: "py_int ''1FFFFFF'' 16 = Inr 33554431"
    by (simp add: py_int_def digit_val_def)
  show ?thesis using decompose_no_range_check[OF p] by simp
qed

section \<open>Page-table entries\<close>

lemma build_new_pte_values:
  assumes "0 \<le> f" and "f \<le> 8191"
  shows "py_int (bi_0_hex (build_new_pte f)) 16 = Inr (8 * f)"
    and "py_int (bi_1_hex (build_new_pte f)) 16 = Inr (8 * f + 4)"
proof -
  have m: "f AND 0x1FFF = f" using assms by (simp add: and_8191)
  have b4: "bit (4::int) n = (n = 2)" for n
    using bit_exp_iff[where ?'a = int, of 2 n] by simp
  have "push_bit 3 f AND (2::int) ^ 2 = 0"
    by (rule bit_eqI) (auto simp add: bit_simps b4)
  then have "push_bit 3 f + (2::int) ^ 2 = push_bit 3 f OR 2 ^ 2"
    by (rule disjunctive_add_eq_or)
  then have o: "push_bit 3 f OR 4 = 8 * f + (4::int)"
    by (simp add: push_bit_eq_mult)
  show "py_int (bi_0_hex (build_new_pte f)) 16 = Inr (8 * f)"
    using assms by (simp add: build_new_pte_def Let_def m push_bit_eq_mult py_int_zfill_format)
  show "py_int (bi_1_hex (build_new_pte f)) 16 = Inr (8 * f + 4)"
    using assms by (simp add: build_new_pte_def Let_def m o py_int_zfill_format)
qed

text \<open>
  C4. For every frame number \<open>f\<close> in \<open>[0, 8191]\<close>, analysing the builder's incoming
  entry gives frame \<open>f\<close> and no fault, and analysing its outgoing entry gives a fault;
  the entries are \<open>(f & 0x1FFF) << 3 | 0b000\<close> and \<open>(f & 0x1FFF) << 3 | 0b100\<close>.
\<close>

theorem pte_round_trip:
  assumes "0 \<le> f" and "f \<le> 8191"
  shows "\<exists>r0 r1.
           analyze_pte (bi_0_hex (build_new_pte f)) = Inr r0
         \<and> cell_number r0 = Some f \<and> \<not> is_page_fault r0
         \<and> analyze_pte (bi_1_hex (build_new_pte f)) = Inr r1
         \<and> is_page_fault r1
         \<and> py_int (bi_0_hex (build_new_pte f)) 16 = Inr (push_bit 3 (f AND 0x1FFF) OR 0)
         \<and> py_int (bi_1_hex (build_new_pte f)) 16 = Inr (push_bit 3 (f AND 0x1FFF) OR 4)"
proof -
  note v = build_new_pte_values[OF assms]
  have b0: "(8 * f) div 4 mod 2 = 0" by presburger
  have b1: "(8 * f + 4) div 4 mod 2 = 1" by presburger
  have c0: "(8 * f) div 8 = f" by simp
  have a0: "\<exists>r0. analyze_pte (bi_0_hex (build_new_pte f)) = Inr r0
         \<and> cell_number r0 = Some f \<and> \<not> is_page_fault r0"
    by (simp add: analyze_pte_def v(1) Let_def and_1 drop_bit_eq_div b0 c0)
  have a1: "\<exists>r1. analyze_pte (bi_1_hex (build_new_pte f)) = Inr r1 \<and> is_page_fault r1"
    by (simp add: analyze_pte_def v(2) Let_def and_1 drop_bit_eq_div b1)
  have m: "f AND 0x1FFF = f" using assms by (simp add: and_8191)
  have b4: "bit (4::int) n = (n = 2)" for n
    using bit_exp_iff[where ?'a = int, of 2 n] by simp
  have "push_bit 3 f AND (2::int) ^ 2 = 0"
    by (rule bit_eqI) (auto simp add: bit_simps b4)
  then have "push_bit 3 f + (2::int) ^ 2 = push_bit 3 f OR 2 ^ 2"
    by (rule disjunctive_add_eq_or)
  then have o: "push_bit 3 f OR 4 = 8 * f + (4::int)"
    by (simp add: push_bit_eq_mult)
  have e0: "py_int (bi_0_hex (build_new_pte f)) 16 = Inr (push_bit 3 (f AND 0x1FFF) OR 0)"
    unfolding m v(1) by (simp add: push_bit_eq_mult)
  have e1: "py_int (bi_1_hex (build_new_pte f)) 16 = Inr (push_bit 3 (f AND 0x1FFF) OR 4)"
    unfolding m v(2) o by simp
  show ?thesis using a0 a1 e0 e1 by blast
qed

theorem pte_round_trip_witness:
  "\<exists>r0 r1.
           analyze_pte (bi_0_hex (build_new_pte 189)) = Inr r0
         \<and> cell_number r0 = Some 189 \<and> \<not> is_page_fault r0
         \<and> analyze_pte (bi_1_hex (build_new_pte 189)) = Inr r1
         \<and> is_page_fault r1
         \<and> py_int (bi_0_hex (build_new_pte 189)) 16 = Inr (push_bit 3 (189 AND 0x1FFF) OR 0)
         \<and> py_int (bi_1_hex (build_new_pte 189)) 16 = Inr (push_bit 3 (189 AND 0x1FFF) OR 4)"
  using pte_round_trip[of 189] by simp

section \<open>Disk geometry\<close>

lemma epa_fields:
  assumes "tpc \<noteq> 0" and "spt \<noteq> 0"
  shows "calculate_epa n tpc spt =
           Inr \<lparr>cylinder = n div (tpc * spt),
                track = (n mod (tpc * spt)) div spt,
                slot = (n mod (tpc * spt)) mod spt,
                slots_per_cyl = tpc * spt,
                epa_slots_per_track = spt\<rparr>"
  using assms by (simp add: calculate_epa_def py_floordiv_def py_mod_def Let_def)

lemma epa_recompose:
  fixes n :: int
  shows "(n div c) * c + ((n mod c) div s) * s + (n mod c) mod s = n"
proof -
  have "((n mod c) div s) * s + (n mod c) mod s = n mod c" by simp
  moreover have "(n div c) * c + n mod c = n" by simp
  ultimately show ?thesis by linarith
qed

text \<open>
  C7, as the code has it. \<open>calculate_epa\<close> validates nothing: with -1 tracks per
  cylinder it returns a locator.
\<close>

theorem calculate_epa_negative_counterexample:
  "calculate_epa 10 (- 1) 3 =
     Inr \<lparr>cylinder = - 4, track = - 1, slot = 1, slots_per_cyl = - 3,
          epa_slots_per_track = 3\<rparr>"
  by (simp add: calculate_epa_def py_floordiv_def py_mod_def)

text \<open>
  C7, amended. When a geometry factor is zero the first division raises
  \<open>ZeroDivisionError\<close>; when both are non-zero, negative ones included,
  \<open>calculate_epa\<close> returns the floor-division locator, which recomposes to the page.
\<close>

theorem calculate_epa_unvalidated:
  "(tpc = 0 \<or> spt = 0 \<longrightarrow> calculate_epa n tpc spt = Inl ZeroDivisionError) \<and>
   (tpc \<noteq> 0 \<and> spt \<noteq> 0 \<longrightarrow>
      (\<exists>r. calculate_epa n tpc spt = Inr r
         \<and> cylinder r = n div (tpc * spt)
         \<and> track r = (n mod (tpc * spt)) div spt
         \<and> slot r = (n mod (tpc * spt)) mod spt
         \<and> cylinder r * slots_per_cyl r + track r * epa_slots_per_track r + slot r = n))"
proof (intro conjI impI)
  assume "tpc = 0 \<or> spt = 0"
  then show "calculate_epa n tpc spt = Inl ZeroDivisionError"
    by (auto simp add: calculate_epa_def py_floordiv_def py_mod_def)
next
  assume a: "tpc \<noteq> 0 \<and> spt \<noteq> 0"
  show "\<exists>r. calculate_epa n tpc spt = Inr r
         \<and> cylinder r = n div (tpc * spt)
         \<and> track r = (n mod (tpc * spt)) div spt
         \<and> slot r = (n mod (tpc * spt)) mod spt
         \<and> cylinder r * slots_per_cyl r + track r * epa_slots_per_track r + slot r = n"
    using a epa_recompose[of n "tpc * spt" spt] by (simp add: epa_fields)
qed

theorem calculate_epa_unvalidated_witness:
  "calculate_epa 10 0 3 = Inl ZeroDivisionError \<and>
   (\<exists>r. calculate_epa 1442 19 6 = Inr r
      \<and> cylinder r = 12 \<and> track r = 12 \<and> slot r = 2
      \<and> cylinder r * slots_per_cyl r + track r * epa_slots_per_track r + slot r = 1442)"
  using calculate_epa_unvalidated[of 0 3 10] calculate_epa_unvalidated[of 19 6 1442]
  by simp

lemma getitem_update:
  "getitem (AList.update k v q) k' = (if k' = k then v else getitem q k')"
  by (simp add: getitem_def update_conv')

lemma set_update_subset: "set (AList.update k v q) \<subseteq> insert (k, v) (set q)"
  by (induction q) auto

lemma refs_within_update:
  "refs_within b h q \<Longrightarrow> b \<le> v \<Longrightarrow> v < length h \<Longrightarrow> refs_within b h (AList.update k v q)"
  using set_update_subset[of k v q] by (auto simp: refs_within_def)

lemma refs_within_grow:
  "refs_within b h q \<Longrightarrow> length h \<le> length h' \<Longrightarrow> refs_within b h' q"
  by (fastforce simp: refs_within_def)

lemma refs_within_getitem:
  assumes "refs_within b h q" and "map_of q k \<noteq> None"
  shows "b \<le> getitem q k \<and> getitem q k < length h"
proof -
  obtain a where a: "map_of q k = Some a" using assms(2) by auto
  then have "(k, a) \<in> set q" by (rule map_of_SomeD)
  then have "b \<le> a \<and> a < length h" using assms(1) by (auto simp: refs_within_def)
  then show ?thesis using a by (simp add: getitem_def)
qed

lemma has_queues_update: "has_queues q \<Longrightarrow> has_queues (AList.update k v q)"
  by (simp add: has_queues_def update_conv')

lemma contents_cong:
  "\<forall>(k, a) \<in> set d. h' ! a = h ! a \<Longrightarrow> contents h' d = contents h d"
  by (auto simp: contents_def)

lemma deepcopy_items_props:
  assumes "deepcopy_items kvs memo h = (d, h')"
    and "\<forall>(k, a) \<in> set kvs. a < n0"
    and "n0 \<le> length h"
    and "\<forall>a a'. memo a = Some a' \<longrightarrow> a < n0 \<and> n0 \<le> a' \<and> a' < length h \<and> h ! a' = h ! a"
  shows "take (length h) h' = h \<and> length h \<le> length h'
       \<and> map fst d = map fst kvs
       \<and> refs_within n0 h' d
       \<and> contents h' d = contents h kvs"
  using assms
proof (induction kvs arbitrary: memo h d h')
  case Nil
  then show ?case by (simp add: refs_within_def contents_def)
next
  case (Cons ka kvs)
  obtain k a where ka: "ka = (k, a)" by (cases ka)
  have a: "a < n0" using Cons.prems(2) ka by simp
  have rest: "\<forall>(k, a) \<in> set kvs. a < n0" using Cons.prems(2) by simp
  show ?case
  proof (cases "memo a")
    case (Some a')
    obtain d1 where d1: "deepcopy_items kvs memo h = (d1, h')" and d: "d = (k, a') # d1"
      using Cons.prems(1) ka Some by (auto split: prod.splits)
    note ih = Cons.IH[OF d1 rest Cons.prems(3) Cons.prems(4)]
    have m: "n0 \<le> a'" "a' < length h" "h ! a' = h ! a" using Cons.prems(4) Some by auto
    have "h' ! a' = h ! a'" using ih m(2) by (metis nth_take)
    then have "h' ! a' = h ! a" using m(3) by simp
    moreover have "a' < length h'" using ih m(2) by simp
    ultimately show ?thesis using ih m(1) ka d
      by (simp add: refs_within_def contents_def)
  next
    case None
    let ?h1 = "h @ [h ! a]"
    let ?m1 = "memo(a \<mapsto> length h)"
    obtain d1 where d1: "deepcopy_items kvs ?m1 ?h1 = (d1, h')" and d: "d = (k, length h) # d1"
      using Cons.prems(1) ka None by (auto simp: Let_def split: prod.splits)
    have p3: "n0 \<le> length ?h1" using Cons.prems(3) by simp
    have p4: "\<forall>b b'. ?m1 b = Some b' \<longrightarrow> b < n0 \<and> n0 \<le> b' \<and> b' < length ?h1 \<and> ?h1 ! b' = ?h1 ! b"
    proof (intro allI impI)
      fix b b' assume s: "?m1 b = Some b'"
      show "b < n0 \<and> n0 \<le> b' \<and> b' < length ?h1 \<and> ?h1 ! b' = ?h1 ! b"
      proof (cases "b = a")
        case True
        then have "b' = length h" using s by simp
        then show ?thesis using True a Cons.prems(3) by (simp add: nth_append)
      next
        case False
        then have "memo b = Some b'" using s by simp
        then have "b < n0 \<and> n0 \<le> b' \<and> b' < length h \<and> h ! b' = h ! b"
          using Cons.prems(4) by blast
        then show ?thesis using Cons.prems(3) by (simp add: nth_append)
      qed
    qed
    note ih = Cons.IH[OF d1 rest p3 p4]
    have t: "take (length ?h1) h' = ?h1" using ih by simp
    have len: "length ?h1 \<le> length h'" using ih by simp
    have "take (length h) h' = take (length h) (take (length ?h1) h')"
      by (simp add: min_def)
    then have t0: "take (length h) h' = h" unfolding t by simp
    have "h' ! length h = ?h1 ! length h"
      using t by (metis length_append_singleton lessI nth_take)
    then have e: "h' ! length h = h ! a" by simp
    have "contents ?h1 kvs = contents h kvs"
      using rest Cons.prems(3) by (intro contents_cong) (auto simp: nth_append)
    then have c: "contents h' d1 = contents h kvs" using ih by simp
    have "length h < length h'" using len by simp
    then show ?thesis using ih t0 e c ka d Cons.prems(3)
      by (simp add: refs_within_def contents_def)
  qed
qed

lemma queue_of_getitem: "map_of q k \<noteq> None \<Longrightarrow> queue_of h q k = h ! getitem q k"
  by (auto simp: queue_of_def getitem_def)

lemma queue_of_contents:
  "queue_of h d k = (case map_of (contents h d) k of Some l \<Rightarrow> l | None \<Rightarrow> [])"
  by (simp add: queue_of_def contents_def map_of_map split: option.splits)

lemma valid_refs_grow: "valid_refs h d \<Longrightarrow> length h \<le> length h' \<Longrightarrow> valid_refs h' d"
  by (fastforce simp: valid_refs_def list_all_iff)

lemma contents_prefix:
  assumes "refs_within b h d" and "take (length h) h' = h"
  shows "contents h' d = contents h d"
proof (rule contents_cong, clarify)
  fix k a assume "(k, a) \<in> set d"
  then have "a < length h" using assms(1) by (auto simp: refs_within_def)
  then show "h' ! a = h ! a" using assms(2) by (metis nth_take)
qed

lemma valid_refs_within: "valid_refs h d = refs_within 0 h d"
  by (auto simp: valid_refs_def refs_within_def list_all_iff)

lemma getitem_rotated:
  "getitem (rotated q n) ''Q00'' = getitem q ''Q01''"
  "getitem (rotated q n) ''Q01'' = getitem q ''Q10''"
  "getitem (rotated q n) ''Q10'' = getitem q ''Q11''"
  "getitem (rotated q n) ''Q11'' = getitem q ''HQ''"
  "getitem (rotated q n) ''HQ'' = n"
  by (simp_all add: rotated_def getitem_update)

lemma rotation_contents:
  assumes "has_queues q" and "valid_refs h q"
  shows "queue_of (h @ [[]]) (rotated q (length h)) ''Q00'' = queue_of h q ''Q01''"
    and "queue_of (h @ [[]]) (rotated q (length h)) ''Q01'' = queue_of h q ''Q10''"
    and "queue_of (h @ [[]]) (rotated q (length h)) ''Q10'' = queue_of h q ''Q11''"
    and "queue_of (h @ [[]]) (rotated q (length h)) ''Q11'' = queue_of h q ''HQ''"
    and "queue_of (h @ [[]]) (rotated q (length h)) ''HQ'' = []"
proof -
  have pres: "map_of q k \<noteq> None" if "k \<in> set QUEUE_ORDER" for k
    using assms(1) that by (simp add: has_queues_def)
  have r: "refs_within 0 h q" using assms(2) by (simp add: valid_refs_within)
  have g: "getitem q k < length h" if "k \<in> set QUEUE_ORDER" for k
    using refs_within_getitem[OF r pres[OF that]] by simp
  have hq: "has_queues (rotated q (length h))"
    unfolding rotated_def by (intro has_queues_update assms(1))
  have new: "queue_of h' (rotated q (length h)) k = h' ! getitem (rotated q (length h)) k"
    if "k \<in> set QUEUE_ORDER" for k h'
    using hq that by (intro queue_of_getitem) (simp add: has_queues_def)
  have old: "queue_of h q k = h ! getitem q k" if "k \<in> set QUEUE_ORDER" for k
    using pres[OF that] by (rule queue_of_getitem)
  show "queue_of (h @ [[]]) (rotated q (length h)) ''Q00'' = queue_of h q ''Q01''"
    using g[of "''Q01''"]
    by (simp add: new old QUEUE_ORDER_def getitem_rotated nth_append)
  show "queue_of (h @ [[]]) (rotated q (length h)) ''Q01'' = queue_of h q ''Q10''"
    using g[of "''Q10''"]
    by (simp add: new old QUEUE_ORDER_def getitem_rotated nth_append)
  show "queue_of (h @ [[]]) (rotated q (length h)) ''Q10'' = queue_of h q ''Q11''"
    using g[of "''Q11''"]
    by (simp add: new old QUEUE_ORDER_def getitem_rotated nth_append)
  show "queue_of (h @ [[]]) (rotated q (length h)) ''Q11'' = queue_of h q ''HQ''"
    using g[of "''HQ''"]
    by (simp add: new old QUEUE_ORDER_def getitem_rotated nth_append)
  show "queue_of (h @ [[]]) (rotated q (length h)) ''HQ'' = []"
    by (simp add: new QUEUE_ORDER_def getitem_rotated)
qed

section \<open>Copies in the store\<close>

lemma deepcopy_props:
  assumes "deepcopy qa s = (qa', s')" and "valid_at s qa"
  shows "qa' = length (dict_heap s)"
    and "dict_heap s' = dict_heap s @ [dict_heap s' ! qa']"
    and "take (length (list_heap s)) (list_heap s') = list_heap s"
    and "length (list_heap s) \<le> length (list_heap s')"
    and "refs_within (length (list_heap s)) (list_heap s') (dict_heap s' ! qa')"
    and "contents_at s' qa' = contents_at s qa"
proof -
  obtain d h' where c: "deepcopy_items (dict_heap s ! qa) Map.empty (list_heap s) = (d, h')"
    by (cases "deepcopy_items (dict_heap s ! qa) Map.empty (list_heap s)")
  have q: "qa' = length (dict_heap s)" and s': "s' = \<lparr>list_heap = h', dict_heap = dict_heap s @ [d]\<rparr>"
    using assms(1) c by (simp_all add: deepcopy_def)
  have v: "\<forall>(k, a) \<in> set (dict_heap s ! qa). a < length (list_heap s)"
    using assms(2) by (auto simp: valid_at_def valid_refs_def list_all_iff)
  have p: "take (length (list_heap s)) h' = list_heap s \<and> length (list_heap s) \<le> length h'
       \<and> map fst d = map fst (dict_heap s ! qa)
       \<and> refs_within (length (list_heap s)) h' d
       \<and> contents h' d = contents (list_heap s) (dict_heap s ! qa)"
    using c v by (intro deepcopy_items_props[where memo = Map.empty]) simp_all
  have n: "dict_heap s' ! qa' = d" unfolding q s' by simp
  show "qa' = length (dict_heap s)" by (rule q)
  show "dict_heap s' = dict_heap s @ [dict_heap s' ! qa']" unfolding n unfolding s' by simp
  show "take (length (list_heap s)) (list_heap s') = list_heap s" using p unfolding s' by simp
  show "length (list_heap s) \<le> length (list_heap s')" using p unfolding s' by simp
  show "refs_within (length (list_heap s)) (list_heap s') (dict_heap s' ! qa')"
    unfolding n using p unfolding s' by simp
  show "contents_at s' qa' = contents_at s qa"
    unfolding contents_at_def n using p unfolding s' by simp
qed

lemma setdefault_props:
  assumes "qa < length (dict_heap s)"
    and "refs_within b (list_heap s) (dict_heap s ! qa)" and "b \<le> length (list_heap s)"
  shows "take (length (list_heap s)) (list_heap (setdefault_empty qa k s)) = list_heap s
       \<and> length (list_heap s) \<le> length (list_heap (setdefault_empty qa k s))
       \<and> length (dict_heap (setdefault_empty qa k s)) = length (dict_heap s)
       \<and> take qa (dict_heap (setdefault_empty qa k s)) = take qa (dict_heap s)
       \<and> refs_within b (list_heap (setdefault_empty qa k s)) (dict_heap (setdefault_empty qa k s) ! qa)
       \<and> map_of (dict_heap (setdefault_empty qa k s) ! qa) k \<noteq> None
       \<and> (\<forall>k'. map_of (dict_heap s ! qa) k' \<noteq> None
              \<longrightarrow> map_of (dict_heap (setdefault_empty qa k s) ! qa) k' \<noteq> None)
       \<and> (\<forall>k'. queue_at (setdefault_empty qa k s) qa k' = queue_at s qa k')"
proof (cases "map_of (dict_heap s ! qa) k")
  case (Some a)
  then have "setdefault_empty qa k s = s" by (simp add: setdefault_empty_def)
  then show ?thesis using assms(2) Some by simp
next
  case None
  let ?q = "dict_heap s ! qa"
  let ?h = "list_heap s"
  let ?s' = "setdefault_empty qa k s"
  have l: "list_heap ?s' = ?h @ [[]]" and d: "dict_heap ?s' = (dict_heap s)[qa := ?q @ [(k, length ?h)]]"
    using None by (simp_all add: setdefault_empty_def)
  have q': "dict_heap ?s' ! qa = ?q @ [(k, length ?h)]" unfolding d using assms(1) by simp
  have r: "refs_within b (list_heap ?s') (dict_heap ?s' ! qa)"
    unfolding q' l using assms(2,3) by (auto simp: refs_within_def)
  have qo: "queue_at ?s' qa k' = queue_at s qa k'" for k'
  proof (cases "map_of ?q k'")
    case None': None
    then show ?thesis using None unfolding queue_at_def q' l
      by (auto simp: queue_of_def map_add_def split: option.splits)
  next
    case (Some a)
    then have "(k', a) \<in> set ?q" by (rule map_of_SomeD)
    then have "a < length ?h" using assms(2) by (auto simp: refs_within_def)
    then show ?thesis using Some unfolding queue_at_def q' l
      by (simp add: queue_of_def map_add_def nth_append)
  qed
  have m: "map_of (dict_heap ?s' ! qa) k \<noteq> None"
    unfolding q' using None by (simp add: map_add_def)
  have m': "\<forall>k'. map_of ?q k' \<noteq> None \<longrightarrow> map_of (dict_heap ?s' ! qa) k' \<noteq> None"
    unfolding q' by (auto simp: map_add_def split: option.splits)
  have t: "take qa (dict_heap ?s') = take qa (dict_heap s)" unfolding d by simp
  show ?thesis using r qo m m' t unfolding l d by simp
qed

lemma fold_setdefault_props:
  assumes "qa < length (dict_heap s)"
    and "refs_within b (list_heap s) (dict_heap s ! qa)" and "b \<le> length (list_heap s)"
  shows "take (length (list_heap s)) (list_heap (fold (setdefault_empty qa) ks s)) = list_heap s
       \<and> length (list_heap s) \<le> length (list_heap (fold (setdefault_empty qa) ks s))
       \<and> length (dict_heap (fold (setdefault_empty qa) ks s)) = length (dict_heap s)
       \<and> take qa (dict_heap (fold (setdefault_empty qa) ks s)) = take qa (dict_heap s)
       \<and> refs_within b (list_heap (fold (setdefault_empty qa) ks s))
            (dict_heap (fold (setdefault_empty qa) ks s) ! qa)
       \<and> (\<forall>k \<in> set ks. map_of (dict_heap (fold (setdefault_empty qa) ks s) ! qa) k \<noteq> None)
       \<and> (\<forall>k'. map_of (dict_heap s ! qa) k' \<noteq> None
              \<longrightarrow> map_of (dict_heap (fold (setdefault_empty qa) ks s) ! qa) k' \<noteq> None)
       \<and> (\<forall>k'. queue_at (fold (setdefault_empty qa) ks s) qa k' = queue_at s qa k')"
  using assms
proof (induction ks arbitrary: s)
  case Nil
  then show ?case by simp
next
  case (Cons k ks)
  let ?s1 = "setdefault_empty qa k s"
  note p = setdefault_props[OF Cons.prems, of k]
  have a1: "qa < length (dict_heap ?s1)" using p Cons.prems(1) by simp
  have r1: "refs_within b (list_heap ?s1) (dict_heap ?s1 ! qa)" using p by simp
  have b1: "b \<le> length (list_heap ?s1)" using p Cons.prems(3) by simp
  note ih = Cons.IH[OF a1 r1 b1]
  let ?s' = "fold (setdefault_empty qa) ks ?s1"
  have "take (length (list_heap s)) (list_heap ?s') =
          take (length (list_heap s)) (take (length (list_heap ?s1)) (list_heap ?s'))"
    using p by (simp add: min_def)
  then have t: "take (length (list_heap s)) (list_heap ?s') = list_heap s" using ih p by simp
  show ?case using ih p t by auto
qed

section \<open>One iteration of the evictor\<close>

lemma lru_iteration_Raise:
  assumes "lru_iteration qb qa s stp = Raise e s'"
  shows "e = RuntimeError_no_victim \<and> s' = s \<and> list_heap s ! getitem (dict_heap s ! qa) ''Q00'' = []
       \<and> \<not> list_ex (\<lambda>k. list_heap s ! getitem (dict_heap s ! qa) k \<noteq> []) (tl QUEUE_ORDER)"
  using assms by (auto simp: lru_iteration_def Let_def split: if_splits prod.splits)

lemma lru_iteration_Return:
  assumes "lru_iteration qb qa s stp = Return r s'"
  shows "victim_R r = 0 \<and> queues_before r = qb \<and> queues_after r = qa
       \<and> steps r = stp @ [victim_found (victim_cell r) 0 (victim_C r)]
       \<and> needs_pageout r = (victim_C r = 1)
       \<and> list_heap s ! getitem (dict_heap s ! qa) ''Q00'' \<noteq> []
       \<and> hd (list_heap s ! getitem (dict_heap s ! qa) ''Q00'') = (victim_cell r, 0, victim_C r)
       \<and> s' = s\<lparr>list_heap := (list_heap s)[getitem (dict_heap s ! qa) ''Q00'' :=
                   tl (list_heap s ! getitem (dict_heap s ! qa) ''Q00'')]\<rparr>"
  using assms by (auto simp: lru_iteration_def Let_def split: if_splits prod.splits)

lemma lru_iteration_victim:
  assumes "list_heap s ! getitem (dict_heap s ! qa) ''Q00'' \<noteq> []"
    and "hd (list_heap s ! getitem (dict_heap s ! qa) ''Q00'') = (cell, 0, c)"
  shows "lru_iteration qb qa s stp =
           Return \<lparr>victim_cell = cell, victim_R = 0, victim_C = c, needs_pageout = (c = 1),
                   steps = stp @ [victim_found cell 0 c],
                   queues_before = qb, queues_after = qa\<rparr>
             (s\<lparr>list_heap := (list_heap s)[getitem (dict_heap s ! qa) ''Q00'' :=
                   tl (list_heap s ! getitem (dict_heap s ! qa) ''Q00'')]\<rparr>)"
  using assms by (simp add: lru_iteration_def Let_def)

lemma lru_iteration_rotate:
  assumes "list_heap s ! getitem (dict_heap s ! qa) ''Q00'' = []"
    and "list_ex (\<lambda>k. list_heap s ! getitem (dict_heap s ! qa) k \<noteq> []) (tl QUEUE_ORDER)"
    and "qa < length (dict_heap s)"
  shows "lru_iteration qb qa s stp =
           Continue (s\<lparr>list_heap := list_heap s @ [[]],
                       dict_heap := (dict_heap s)[qa := rotated (dict_heap s ! qa) (length (list_heap s))]\<rparr>)
             (stp @ [rotate_queues])"
  using assms
  by (simp add: lru_iteration_def Let_def setitem_def rotated_def getitem_update)

lemma lru_iteration_second_chance:
  assumes "list_heap s ! getitem (dict_heap s ! qa) ''Q00'' \<noteq> []"
    and "hd (list_heap s ! getitem (dict_heap s ! qa) ''Q00'') = (cell, r, c)" and "r \<noteq> 0"
    and "getitem (dict_heap s ! qa) ''Q00'' < length (list_heap s)"
  shows "lru_iteration qb qa s stp =
           Continue (s\<lparr>list_heap := (list_heap s)[getitem (dict_heap s ! qa) ''Q00'' :=
                        tl (list_heap s ! getitem (dict_heap s ! qa) ''Q00'') @ [(cell, 0, c)]]\<rparr>)
             (stp @ [second_chance cell])"
  using assms by (simp add: lru_iteration_def Let_def)

lemma lru_iteration_Continue:
  assumes "lru_iteration qb qa s stp = Continue s' stp'"
    and "qa < length (dict_heap s)"
    and "has_queues (dict_heap s ! qa)" and "refs_within b (list_heap s) (dict_heap s ! qa)"
  shows "length (dict_heap s') = length (dict_heap s) \<and> take qa (dict_heap s') = take qa (dict_heap s)
       \<and> has_queues (dict_heap s' ! qa) \<and> refs_within b (list_heap s') (dict_heap s' ! qa)
       \<and> take b (list_heap s') = take b (list_heap s)
       \<and> length stp' = Suc (length stp)
       \<and> (\<exists>k \<in> set QUEUE_ORDER. list_heap s' ! getitem (dict_heap s' ! qa) k \<noteq> [])"
proof -
  let ?q = "dict_heap s ! qa"
  let ?h = "list_heap s"
  have pres: "map_of ?q k \<noteq> None" if "k \<in> set QUEUE_ORDER" for k
    using assms(3) that by (simp add: has_queues_def)
  have g: "b \<le> getitem ?q k \<and> getitem ?q k < length ?h" if "k \<in> set QUEUE_ORDER" for k
    using refs_within_getitem[OF assms(4) pres[OF that]] .
  let ?a = "getitem ?q ''Q00''"
  have a: "b \<le> ?a" "?a < length ?h" using g[of "''Q00''"] by (simp_all add: QUEUE_ORDER_def)
  have g1: "b \<le> getitem ?q ''Q01''" "getitem ?q ''Q01'' < length ?h"
    using g[of "''Q01''"] by (simp_all add: QUEUE_ORDER_def)
  have g2: "b \<le> getitem ?q ''Q10''" "getitem ?q ''Q10'' < length ?h"
    using g[of "''Q10''"] by (simp_all add: QUEUE_ORDER_def)
  have g3: "b \<le> getitem ?q ''Q11''" "getitem ?q ''Q11'' < length ?h"
    using g[of "''Q11''"] by (simp_all add: QUEUE_ORDER_def)
  have g4: "b \<le> getitem ?q ''HQ''" "getitem ?q ''HQ'' < length ?h"
    using g[of "''HQ''"] by (simp_all add: QUEUE_ORDER_def)
  show ?thesis
  proof (cases "?h ! ?a = []")
    case True
    then have ex: "list_ex (\<lambda>k. ?h ! getitem ?q k \<noteq> []) (tl QUEUE_ORDER)"
      using assms(1) by (auto simp: lru_iteration_def Let_def split: if_splits)
    have c: "s' = s\<lparr>list_heap := ?h @ [[]], dict_heap := (dict_heap s)[qa := rotated ?q (length ?h)]\<rparr>"
      "stp' = stp @ [rotate_queues]"
      using assms(1) unfolding lru_iteration_rotate[OF True ex assms(2)] by auto
    have l': "list_heap s' = ?h @ [[]]" and q': "dict_heap s' ! qa = rotated ?q (length ?h)"
      unfolding c using assms(2) by simp_all
    have hq: "has_queues (dict_heap s' ! qa)" unfolding q' rotated_def
      by (intro has_queues_update assms(3))
    have gr: "refs_within b (?h @ [[]]) ?q" using assms(4) by (rule refs_within_grow) simp
    have rw: "refs_within b (list_heap s') (dict_heap s' ! qa)" unfolding q' l' rotated_def
      using a g1 g2 g3 g4 by (intro refs_within_update gr) simp_all
    have tk: "take b (list_heap s') = take b ?h" unfolding l' using a by simp
    have "\<exists>k \<in> set QUEUE_ORDER. list_heap s' ! getitem (dict_heap s' ! qa) k \<noteq> []"
      using ex g1 g2 g3 g4 unfolding q' l'
      by (auto simp: QUEUE_ORDER_def getitem_rotated nth_append)
    then show ?thesis using hq rw tk unfolding c by simp
  next
    case False
    obtain cell r cc where hd: "hd (?h ! ?a) = (cell, r, cc)" by (cases "hd (?h ! ?a)")
    have r: "r \<noteq> 0" using assms(1) False hd
      by (auto simp: lru_iteration_def Let_def split: if_splits)
    have c: "s' = s\<lparr>list_heap := ?h[?a := tl (?h ! ?a) @ [(cell, 0, cc)]]\<rparr>"
      "stp' = stp @ [second_chance cell]"
      using assms(1) unfolding lru_iteration_second_chance[OF False hd r a(2)] by auto
    have l': "list_heap s' = ?h[?a := tl (?h ! ?a) @ [(cell, 0, cc)]]" and q': "dict_heap s' = dict_heap s"
      unfolding c by simp_all
    have rw: "refs_within b (list_heap s') (dict_heap s' ! qa)"
      unfolding q' l' using assms(4) by (rule refs_within_grow) simp
    have tk: "take b (list_heap s') = take b ?h" unfolding l' using a(1) by simp
    have "list_heap s' ! getitem (dict_heap s' ! qa) ''Q00'' \<noteq> []" unfolding q' l' using a(2) by simp
    then have "\<exists>k \<in> set QUEUE_ORDER. list_heap s' ! getitem (dict_heap s' ! qa) k \<noteq> []"
      by (auto simp: QUEUE_ORDER_def)
    then show ?thesis using assms(3) rw tk q' unfolding c(2) by simp
  qed
qed

section \<open>The evictor\<close>

lemma lru_iteration_steps:
  "lru_iteration qb qa s stp = Continue s' stp' \<Longrightarrow> length stp' = Suc (length stp)"
  by (auto simp: lru_iteration_def Let_def split: if_splits prod.splits)

lemma lru_loop_result:
  "lru_loop n qb qa s stp = (Inr r, s') \<Longrightarrow>
     victim_R r = 0 \<and> queues_before r = qb \<and> queues_after r = qa
     \<and> length (steps r) \<le> length stp + n"
proof (induction n arbitrary: s stp)
  case 0
  then show ?case by simp
next
  case (Suc n)
  show ?case
  proof (cases "lru_iteration qb qa s stp")
    case (Return r1 s1)
    then have "r1 = r" using Suc.prems by simp
    then show ?thesis using lru_iteration_Return[OF Return] by simp
  next
    case (Raise e s1)
    then show ?thesis using Suc.prems by simp
  next
    case (Continue s1 stp1)
    then have "lru_loop n qb qa s1 stp1 = (Inr r, s')" using Suc.prems by simp
    then show ?thesis using Suc.IH lru_iteration_steps[OF Continue] by fastforce
  qed
qed

lemma lru_loop_errors:
  "lru_loop n qb qa s stp = (Inl e, s') \<Longrightarrow>
     e = RuntimeError_no_victim \<or> e = RuntimeError_limit"
proof (induction n arbitrary: s stp)
  case 0
  then show ?case by simp
next
  case (Suc n)
  show ?case
  proof (cases "lru_iteration qb qa s stp")
    case (Return r1 s1)
    then show ?thesis using Suc.prems by simp
  next
    case (Raise e1 s1)
    then show ?thesis using Suc.prems lru_iteration_Raise[OF Raise] by simp
  next
    case (Continue s1 stp1)
    then show ?thesis using Suc.prems Suc.IH by simp
  qed
qed

lemma lru_loop_inv:
  assumes "qa < length (dict_heap s)"
    and "has_queues (dict_heap s ! qa)" and "refs_within b (list_heap s) (dict_heap s ! qa)"
    and "lru_loop n qb qa s stp = (res, s')"
  shows "take b (list_heap s') = take b (list_heap s)
       \<and> take qa (dict_heap s') = take qa (dict_heap s)
       \<and> length (dict_heap s') = length (dict_heap s)
       \<and> (res = Inl RuntimeError_no_victim \<longrightarrow>
            (\<forall>k \<in> set QUEUE_ORDER. list_heap s ! getitem (dict_heap s ! qa) k = []))"
  using assms
proof (induction n arbitrary: s stp)
  case 0
  then show ?case by auto
next
  case (Suc n)
  have a: "b \<le> getitem (dict_heap s ! qa) ''Q00''"
    using refs_within_getitem[OF Suc.prems(3), of "''Q00''"] Suc.prems(2)
    by (simp add: has_queues_def QUEUE_ORDER_def)
  show ?case
  proof (cases "lru_iteration qb qa s stp")
    case (Return r1 s1)
    then have "res = Inr r1" "s' = s1" using Suc.prems(4) by simp_all
    then show ?thesis using lru_iteration_Return[OF Return] a by simp
  next
    case (Raise e1 s1)
    then have "res = Inl e1" "s' = s1" using Suc.prems(4) by simp_all
    then show ?thesis using lru_iteration_Raise[OF Raise]
      by (auto simp: QUEUE_ORDER_def)
  next
    case (Continue s1 stp1)
    note c = lru_iteration_Continue[OF Continue Suc.prems(1,2,3)]
    have l: "lru_loop n qb qa s1 stp1 = (res, s')" using Suc.prems(4) Continue by simp
    have qa1: "qa < length (dict_heap s1)" using c Suc.prems(1) by simp
    have hq: "has_queues (dict_heap s1 ! qa)"
      and rw: "refs_within b (list_heap s1) (dict_heap s1 ! qa)" using c by simp_all
    note ih = Suc.IH[OF qa1 hq rw l]
    have "res \<noteq> Inl RuntimeError_no_victim" using ih c by auto
    then show ?thesis using ih c by simp
  qed
qed

lemma lru_loop_all_empty:
  assumes "\<forall>k \<in> set QUEUE_ORDER. list_heap s ! getitem (dict_heap s ! qa) k = []"
  shows "lru_loop (Suc n) qb qa s stp = (Inl RuntimeError_no_victim, s)"
  using assms by (simp add: lru_iteration_def QUEUE_ORDER_def)

lemma queue_at_getitem:
  "map_of (dict_heap s ! qa) k \<noteq> None \<Longrightarrow>
     queue_at s qa k = list_heap s ! getitem (dict_heap s ! qa) k"
  unfolding queue_at_def by (rule queue_of_getitem)

lemma queue_at_contents:
  "contents_at s' qa' = contents_at s qa \<Longrightarrow> queue_at s' qa' k = queue_at s qa k"
  by (simp add: queue_at_def contents_at_def queue_of_contents)

lemma run_lru_unfold:
  assumes "valid_at s queues" and "run_lru_second_chance queues s = (res, s')"
  obtains s1 s3 where
    "lru_loop 1000 (length (dict_heap s)) (Suc (length (dict_heap s))) s3 [] = (res, s')"
    "take (length (list_heap s)) (list_heap s1) = list_heap s"
    "length (list_heap s) \<le> length (list_heap s1)"
    "take (length (dict_heap s)) (dict_heap s1) = dict_heap s"
    "length (dict_heap s1) = Suc (length (dict_heap s))"
    "refs_within (length (list_heap s)) (list_heap s1) (dict_heap s1 ! length (dict_heap s))"
    "contents_at s1 (length (dict_heap s)) = contents_at s queues"
    "take (length (list_heap s1)) (list_heap s3) = list_heap s1"
    "take (Suc (length (dict_heap s))) (dict_heap s3) = dict_heap s1"
    "Suc (length (dict_heap s)) < length (dict_heap s3)"
    "has_queues (dict_heap s3 ! Suc (length (dict_heap s)))"
    "refs_within (length (list_heap s1)) (list_heap s3)
       (dict_heap s3 ! Suc (length (dict_heap s)))"
    "\<forall>k. queue_at s3 (Suc (length (dict_heap s))) k = queue_at s queues k"
proof -
  let ?qb = "length (dict_heap s)"
  let ?qa = "Suc (length (dict_heap s))"
  obtain qb s1 where d1: "deepcopy queues s = (qb, s1)" by (cases "deepcopy queues s")
  note p1 = deepcopy_props[OF d1 assms(1)]
  have qb: "qb = ?qb" by (rule p1(1))
  have ds1: "dict_heap s1 = dict_heap s @ [dict_heap s1 ! ?qb]" using p1(2) qb by simp
  then have len1: "length (dict_heap s1) = ?qa"
    by (metis length_append_singleton)
  have tk1: "take ?qb (dict_heap s1) = dict_heap s" using ds1 by (metis append_eq_conv_conj)
  have qin: "queues < length (dict_heap s)" using assms(1) by (simp add: valid_at_def)
  have same: "dict_heap s1 ! queues = dict_heap s ! queues"
    using tk1 qin by (metis nth_take)
  have v1: "valid_at s1 queues"
    using assms(1) p1(4) len1 qin same valid_refs_grow[of "list_heap s" "dict_heap s ! queues"]
    by (simp add: valid_at_def)
  obtain qa s2 where d2: "deepcopy queues s1 = (qa, s2)" by (cases "deepcopy queues s1")
  note p2 = deepcopy_props[OF d2 v1]
  have qa: "qa = ?qa" using p2(1) len1 by simp
  have ds2: "dict_heap s2 = dict_heap s1 @ [dict_heap s2 ! ?qa]" using p2(2) qa by simp
  have len2: "length (dict_heap s2) = Suc ?qa" using ds2 len1 by (metis length_append_singleton)
  have tk2: "take ?qa (dict_heap s2) = dict_heap s1"
    using ds2 len1 by (metis append_eq_conv_conj)
  let ?s3 = "fold (setdefault_empty ?qa) QUEUE_ORDER s2"
  have l: "lru_loop 1000 ?qb ?qa ?s3 [] = (res, s')"
    using assms(2) d1 d2 qb qa by (simp add: run_lru_second_chance_def)
  have a2: "?qa < length (dict_heap s2)" using len2 by simp
  have r2: "refs_within (length (list_heap s1)) (list_heap s2) (dict_heap s2 ! ?qa)"
    using p2(5) qa by simp
  note pf = fold_setdefault_props[OF a2 r2 p2(4), of QUEUE_ORDER]
  have "take (length (list_heap s1)) (list_heap ?s3) =
          take (length (list_heap s1)) (take (length (list_heap s2)) (list_heap ?s3))"
    using p2(4) by (simp add: min_def)
  then have t3: "take (length (list_heap s1)) (list_heap ?s3) = list_heap s1"
    using pf p2(3) by simp
  have d3: "take ?qa (dict_heap ?s3) = dict_heap s1" using pf tk2 by simp
  have a3: "?qa < length (dict_heap ?s3)" using pf a2 by simp
  have hq: "has_queues (dict_heap ?s3 ! ?qa)" using pf by (simp add: has_queues_def)
  have rq: "refs_within (length (list_heap s1)) (list_heap ?s3) (dict_heap ?s3 ! ?qa)"
    using pf by simp
  have c1: "contents_at s1 ?qb = contents_at s queues" using p1(6) qb by simp
  have c2: "contents_at s2 ?qa = contents_at s1 queues" using p2(6) qa by simp
  have rw0: "refs_within 0 (list_heap s) (dict_heap s ! queues)"
    using assms(1) by (simp add: valid_at_def valid_refs_within)
  have "contents (list_heap s1) (dict_heap s ! queues) = contents (list_heap s) (dict_heap s ! queues)"
    using rw0 p1(3) by (rule contents_prefix)
  then have c3: "contents_at s1 queues = contents_at s queues"
    using same by (simp add: contents_at_def)
  have qo: "\<forall>k. queue_at ?s3 ?qa k = queue_at s queues k"
    using pf queue_at_contents[OF c2] queue_at_contents[OF c3] by simp
  show ?thesis
    using that[OF l p1(3) p1(4) tk1 len1 _ c1 t3 d3 a3 hq rq qo] p1(5) qb by simp
qed

text \<open>
  C9. The evictor never mutates what the caller supplied: whatever it returns or raises,
  every dictionary object and every list object that existed before the call is unchanged
  afterwards (the evictor only adds objects), so the caller's mapping reads as before;
  on success \<open>queues_before\<close> reads as the input queue state, and \<open>queues_before\<close> and
  \<open>queues_after\<close> are objects of the evictor's own.
\<close>

theorem run_lru_frame:
  assumes "valid_at s queues" and "run_lru_second_chance queues s = (res, s')"
  shows "take (length (dict_heap s)) (dict_heap s') = dict_heap s
       \<and> take (length (list_heap s)) (list_heap s') = list_heap s
       \<and> contents_at s' queues = contents_at s queues
       \<and> (\<forall>r. res = Inr r \<longrightarrow>
             contents_at s' (queues_before r) = contents_at s queues
           \<and> length (dict_heap s) \<le> queues_before r
           \<and> length (dict_heap s) \<le> queues_after r)"
proof (rule run_lru_unfold[OF assms])
  let ?qb = "length (dict_heap s)"
  let ?qa = "Suc (length (dict_heap s))"
  fix s1 s3
  assume l: "lru_loop 1000 ?qb ?qa s3 [] = (res, s')"
    and t1: "take (length (list_heap s)) (list_heap s1) = list_heap s"
    and n1: "length (list_heap s) \<le> length (list_heap s1)"
    and d1: "take ?qb (dict_heap s1) = dict_heap s"
    and len1: "length (dict_heap s1) = ?qa"
    and rb: "refs_within (length (list_heap s)) (list_heap s1) (dict_heap s1 ! ?qb)"
    and cb: "contents_at s1 ?qb = contents_at s queues"
    and t3: "take (length (list_heap s1)) (list_heap s3) = list_heap s1"
    and d3: "take ?qa (dict_heap s3) = dict_heap s1"
    and a3: "?qa < length (dict_heap s3)"
    and hq: "has_queues (dict_heap s3 ! ?qa)"
    and rq: "refs_within (length (list_heap s1)) (list_heap s3) (dict_heap s3 ! ?qa)"
    and qo: "\<forall>k. queue_at s3 ?qa k = queue_at s queues k"
  note inv = lru_loop_inv[OF a3 hq rq l]
  have tl': "take (length (list_heap s1)) (list_heap s') = list_heap s1" using inv t3 by simp
  have td': "take ?qa (dict_heap s') = dict_heap s1" using inv d3 by simp
  have "take (length (list_heap s)) (list_heap s') =
          take (length (list_heap s)) (take (length (list_heap s1)) (list_heap s'))"
    using n1 by (simp add: min_def)
  then have fl: "take (length (list_heap s)) (list_heap s') = list_heap s" using tl' t1 by simp
  have "take ?qb (dict_heap s') = take ?qb (take ?qa (dict_heap s'))"
    by (simp add: min_def)
  then have fd: "take ?qb (dict_heap s') = dict_heap s" using td' d1 by simp
  have qin: "queues < ?qb" using assms(1) by (simp add: valid_at_def)
  have same: "dict_heap s' ! queues = dict_heap s ! queues" using fd qin by (metis nth_take)
  have rw0: "refs_within 0 (list_heap s) (dict_heap s ! queues)"
    using assms(1) by (simp add: valid_at_def valid_refs_within)
  have "contents (list_heap s') (dict_heap s ! queues) = contents (list_heap s) (dict_heap s ! queues)"
    using rw0 fl by (rule contents_prefix)
  then have c: "contents_at s' queues = contents_at s queues"
    using same by (simp add: contents_at_def)
  have sb: "dict_heap s' ! ?qb = dict_heap s1 ! ?qb" using td' by (metis lessI nth_take)
  have rb1: "refs_within 0 (list_heap s1) (dict_heap s1 ! ?qb)"
    using rb by (auto simp: refs_within_def)
  have "contents (list_heap s') (dict_heap s1 ! ?qb) = contents (list_heap s1) (dict_heap s1 ! ?qb)"
    using rb1 tl' by (rule contents_prefix)
  then have b: "contents_at s' ?qb = contents_at s queues"
    using sb cb by (simp add: contents_at_def)
  have "queues_before r = ?qb \<and> queues_after r = ?qa" if "res = Inr r" for r
    using lru_loop_result[of 1000 ?qb ?qa s3 "[]" r s'] l that by simp
  then have rs: "\<forall>r. res = Inr r \<longrightarrow>
             contents_at s' (queues_before r) = contents_at s queues
           \<and> length (dict_heap s) \<le> queues_before r
           \<and> length (dict_heap s) \<le> queues_after r"
    using b by simp
  show ?thesis by (intro conjI fd fl c rs)
qed

section \<open>The rotation phase\<close>

lemma rotation_fires:
  assumes "qa < length (dict_heap s)" and "has_queues (dict_heap s ! qa)"
    and "queue_at s qa ''Q00'' = []"
    and "\<exists>k \<in> set (tl QUEUE_ORDER). queue_at s qa k \<noteq> []"
  shows "lru_iteration qb qa s stp =
           Continue (s\<lparr>list_heap := list_heap s @ [[]],
                       dict_heap := (dict_heap s)[qa :=
                         rotated (dict_heap s ! qa) (length (list_heap s))]\<rparr>)
             (stp @ [rotate_queues])"
proof -
  have old: "queue_at s qa k = list_heap s ! getitem (dict_heap s ! qa) k"
    if "k \<in> set QUEUE_ORDER" for k
    using assms(2) that by (intro queue_at_getitem) (simp add: has_queues_def)
  have e: "list_heap s ! getitem (dict_heap s ! qa) ''Q00'' = []"
    using assms(3) old by (simp add: QUEUE_ORDER_def)
  have "\<exists>k \<in> set (tl QUEUE_ORDER). list_heap s ! getitem (dict_heap s ! qa) k \<noteq> []"
    using assms(4) old by (auto simp: QUEUE_ORDER_def)
  then have "list_ex (\<lambda>k. list_heap s ! getitem (dict_heap s ! qa) k \<noteq> []) (tl QUEUE_ORDER)"
    by (simp add: list_ex_iff)
  with e show ?thesis using assms(1) by (rule lru_iteration_rotate)
qed

lemma rotated_store:
  assumes "valid_at s qa" and "has_queues (dict_heap s ! qa)"
    and "s' = s\<lparr>list_heap := list_heap s @ [[]],
                 dict_heap := (dict_heap s)[qa :=
                   rotated (dict_heap s ! qa) (length (list_heap s))]\<rparr>"
  shows "queue_at s' qa ''Q00'' = queue_at s qa ''Q01''"
    and "queue_at s' qa ''Q01'' = queue_at s qa ''Q10''"
    and "queue_at s' qa ''Q10'' = queue_at s qa ''Q11''"
    and "queue_at s' qa ''Q11'' = queue_at s qa ''HQ''"
    and "queue_at s' qa ''HQ'' = []"
    and "valid_at s' qa" and "has_queues (dict_heap s' ! qa)"
proof -
  have qa: "qa < length (dict_heap s)" and v: "valid_refs (list_heap s) (dict_heap s ! qa)"
    using assms(1) by (simp_all add: valid_at_def)
  have l': "list_heap s' = list_heap s @ [[]]"
    and q': "dict_heap s' ! qa = rotated (dict_heap s ! qa) (length (list_heap s))"
    and n': "length (dict_heap s') = length (dict_heap s)"
    unfolding assms(3) using qa by simp_all
  note rc = rotation_contents[OF assms(2) v]
  show "queue_at s' qa ''Q00'' = queue_at s qa ''Q01''" unfolding queue_at_def l' q' by (rule rc(1))
  show "queue_at s' qa ''Q01'' = queue_at s qa ''Q10''" unfolding queue_at_def l' q' by (rule rc(2))
  show "queue_at s' qa ''Q10'' = queue_at s qa ''Q11''" unfolding queue_at_def l' q' by (rule rc(3))
  show "queue_at s' qa ''Q11'' = queue_at s qa ''HQ''" unfolding queue_at_def l' q' by (rule rc(4))
  show "queue_at s' qa ''HQ'' = []" unfolding queue_at_def l' q' by (rule rc(5))
  show hq: "has_queues (dict_heap s' ! qa)" unfolding q' rotated_def
    by (intro has_queues_update assms(2))
  have pres: "map_of (dict_heap s ! qa) k \<noteq> None" if "k \<in> set QUEUE_ORDER" for k
    using assms(2) that by (simp add: has_queues_def)
  have r0: "refs_within 0 (list_heap s) (dict_heap s ! qa)" using v by (simp add: valid_refs_within)
  have g: "getitem (dict_heap s ! qa) k < length (list_heap s)" if "k \<in> set QUEUE_ORDER" for k
    using refs_within_getitem[OF r0 pres[OF that]] by simp
  have gr: "refs_within 0 (list_heap s @ [[]]) (dict_heap s ! qa)"
    using r0 by (rule refs_within_grow) simp
  have g1: "getitem (dict_heap s ! qa) ''Q01'' < length (list_heap s)"
    and g2: "getitem (dict_heap s ! qa) ''Q10'' < length (list_heap s)"
    and g3: "getitem (dict_heap s ! qa) ''Q11'' < length (list_heap s)"
    and g4: "getitem (dict_heap s ! qa) ''HQ'' < length (list_heap s)"
    by (rule g, simp add: QUEUE_ORDER_def)+
  have "refs_within 0 (list_heap s') (dict_heap s' ! qa)" unfolding q' l' rotated_def
    using g1 g2 g3 g4 by (intro refs_within_update gr) simp_all
  then show "valid_at s' qa" using qa n' by (simp add: valid_at_def valid_refs_within)
qed

lemma tiers_rotated:
  assumes "valid_at s qa" and "has_queues (dict_heap s ! qa)"
    and "s' = s\<lparr>list_heap := list_heap s @ [[]],
                 dict_heap := (dict_heap s)[qa :=
                   rotated (dict_heap s ! qa) (length (list_heap s))]\<rparr>"
  shows "tiers s' qa = tl (tiers s qa) @ [[]]"
  using rotated_store(1-5)[OF assms] by (simp add: tiers_def QUEUE_ORDER_def)

lemma rotation_phase:
  assumes "j = expected_rotations (tiers s qa)"
    and "valid_at s qa" and "has_queues (dict_heap s ! qa)"
    and "\<not> (\<forall>q \<in> set (tiers s qa). q = [])" and "j \<le> n"
  shows "\<exists>s'. lru_loop n qb qa s stp =
                lru_loop (n - j) qb qa s' (stp @ replicate j rotate_queues)
            \<and> valid_at s' qa \<and> has_queues (dict_heap s' ! qa)
            \<and> queue_at s' qa ''Q00'' = front_queue (tiers s qa)
            \<and> front_queue (tiers s qa) \<noteq> []"
  using assms
proof (induction j arbitrary: s stp n)
  case 0
  have t: "tiers s qa = queue_at s qa ''Q00'' # tl (tiers s qa)"
    by (simp add: tiers_def QUEUE_ORDER_def)
  have "takeWhile (\<lambda>q. q = []) (tiers s qa) = []"
    using 0(1) by (simp add: expected_rotations_def)
  then have "takeWhile (\<lambda>q. q = []) (queue_at s qa ''Q00'' # tl (tiers s qa)) = []"
    using t by simp
  then have ne: "queue_at s qa ''Q00'' \<noteq> []"
    by (simp split: if_splits)
  then have "front_queue (tiers s qa) = queue_at s qa ''Q00''"
    unfolding front_queue_def by (subst t) simp
  then show ?case using 0 ne by auto
next
  case (Suc j)
  let ?ts = "tiers s qa"
  have t: "?ts = queue_at s qa ''Q00'' # tl ?ts"
    by (simp add: tiers_def QUEUE_ORDER_def)
  have e: "queue_at s qa ''Q00'' = []"
  proof (rule ccontr)
    assume "queue_at s qa ''Q00'' \<noteq> []"
    then have "takeWhile (\<lambda>q. q = []) ?ts = []" by (subst t) simp
    then show False using Suc.prems(1) by (simp add: expected_rotations_def)
  qed
  have rest: "\<exists>q \<in> set (tl ?ts). q \<noteq> []"
    using Suc.prems(4) e by (subst (asm) t) auto
  then have ex: "\<exists>k \<in> set (tl QUEUE_ORDER). queue_at s qa k \<noteq> []"
    by (auto simp: tiers_def QUEUE_ORDER_def)
  have qa: "qa < length (dict_heap s)" using Suc.prems(2) by (simp add: valid_at_def)
  let ?s1 = "s\<lparr>list_heap := list_heap s @ [[]],
                dict_heap := (dict_heap s)[qa :=
                  rotated (dict_heap s ! qa) (length (list_heap s))]\<rparr>"
  have it: "lru_iteration qb qa s stp = Continue ?s1 (stp @ [rotate_queues])"
    using qa Suc.prems(3) e ex by (rule rotation_fires)
  have ts1: "tiers ?s1 qa = tl ?ts @ [[]]"
    using Suc.prems(2,3) by (rule tiers_rotated) simp
  have v1: "valid_at ?s1 qa" and h1: "has_queues (dict_heap ?s1 ! qa)"
    using rotated_store(6,7)[OF Suc.prems(2,3) refl] by simp_all
  obtain x where x: "x \<in> set (tl ?ts)" "x \<noteq> []" using rest by blast
  have tw: "takeWhile (\<lambda>q. q = []) (tl ?ts @ [[]]) = takeWhile (\<lambda>q. q = []) (tl ?ts)"
    using x by (intro takeWhile_append1[of x]) simp_all
  have dw: "dropWhile (\<lambda>q. q = []) (tl ?ts @ [[]]) = dropWhile (\<lambda>q. q = []) (tl ?ts) @ [[]]"
    using x by (intro dropWhile_append1[of x]) simp_all
  have dne: "dropWhile (\<lambda>q. q = []) (tl ?ts) \<noteq> []"
    using x by (auto simp: dropWhile_eq_Nil_conv)
  have "expected_rotations ?ts = Suc (expected_rotations (tl ?ts))"
    unfolding expected_rotations_def using e by (subst t) simp
  then have j1: "j = expected_rotations (tiers ?s1 qa)"
    using Suc.prems(1) unfolding ts1 expected_rotations_def tw by simp
  have f1: "front_queue (tiers ?s1 qa) = front_queue ?ts"
  proof -
    have "front_queue ?ts = hd (dropWhile (\<lambda>q. q = []) (tl ?ts))"
      unfolding front_queue_def using e by (subst t) simp
    moreover have "front_queue (tiers ?s1 qa) = hd (dropWhile (\<lambda>q. q = []) (tl ?ts))"
      unfolding front_queue_def ts1 dw using dne by simp
    ultimately show ?thesis by simp
  qed
  have ne1: "\<not> (\<forall>q \<in> set (tiers ?s1 qa). q = [])" unfolding ts1 using x by auto
  obtain n' where n: "n = Suc n'" using Suc.prems(5) by (cases n) simp_all
  have jn: "j \<le> n'" using Suc.prems(5) n by simp
  from Suc.IH[OF j1 v1 h1 ne1 jn, where stp = "stp @ [rotate_queues]"]
  obtain s' where s':
    "lru_loop n' qb qa ?s1 (stp @ [rotate_queues]) =
       lru_loop (n' - j) qb qa s' ((stp @ [rotate_queues]) @ replicate j rotate_queues)"
    "valid_at s' qa" "has_queues (dict_heap s' ! qa)"
    "queue_at s' qa ''Q00'' = front_queue (tiers ?s1 qa)"
    "front_queue (tiers ?s1 qa) \<noteq> []"
    by blast
  have "lru_loop n qb qa s stp = lru_loop n' qb qa ?s1 (stp @ [rotate_queues])"
    unfolding n by (simp add: it)
  also have "\<dots> = lru_loop (n - Suc j) qb qa s' (stp @ replicate (Suc j) rotate_queues)"
    unfolding s'(1) n by (simp add: replicate_append_same)
  finally show ?case using s'(2,3,4,5) f1 by auto
qed

section \<open>The second-chance phase\<close>

lemma second_chance_phase_victim:
  assumes "getitem (dict_heap s ! qa) ''Q00'' < length (list_heap s)"
    and "list_heap s ! getitem (dict_heap s ! qa) ''Q00'' = us @ vs"
    and "\<forall>e \<in> set us. referenced e"
    and "vs \<noteq> [] \<longrightarrow> \<not> referenced (hd vs)"
    and "us @ vs \<noteq> []"
    and "length us < n"
  shows "\<exists>s'. lru_loop n qb qa s stp =
           (Inr \<lparr>victim_cell = fst (hd (vs @ map unreferenced us)), victim_R = 0,
                  victim_C = snd (snd (hd (vs @ map unreferenced us))),
                  needs_pageout = (snd (snd (hd (vs @ map unreferenced us))) = 1),
                  steps = stp @ map (\<lambda>e. second_chance (fst e)) us
                    @ [victim_found (fst (hd (vs @ map unreferenced us))) 0
                         (snd (snd (hd (vs @ map unreferenced us))))],
                  queues_before = qb, queues_after = qa\<rparr>, s')"
  using assms
proof (induction us arbitrary: vs s stp n)
  case Nil
  let ?a = "getitem (dict_heap s ! qa) ''Q00''"
  have xs: "list_heap s ! ?a = vs" and ne: "vs \<noteq> []" using Nil.prems(2,5) by simp_all
  obtain cell r c where hd: "hd vs = (cell, r, c)" by (cases "hd vs")
  have r: "r = 0" using Nil.prems(4) ne hd by (simp add: referenced_def)
  obtain n' where n: "n = Suc n'" using Nil.prems(6) by (cases n) simp_all
  have ne': "list_heap s ! ?a \<noteq> []" and hd': "hd (list_heap s ! ?a) = (cell, 0, c)"
    using xs ne hd r by simp_all
  show ?case unfolding n using hd r
    by (simp add: lru_iteration_victim[OF ne' hd'])
next
  case (Cons u us)
  let ?a = "getitem (dict_heap s ! qa) ''Q00''"
  obtain cell r c where u: "u = (cell, r, c)" by (cases u)
  have r: "r \<noteq> 0" using Cons.prems(3) u by (simp add: referenced_def)
  have ne: "list_heap s ! ?a \<noteq> []" and hd: "hd (list_heap s ! ?a) = (cell, r, c)"
    using Cons.prems(2) u by simp_all
  let ?s1 = "s\<lparr>list_heap := (list_heap s)[?a := tl (list_heap s ! ?a) @ [(cell, 0, c)]]\<rparr>"
  have it: "lru_iteration qb qa s stp = Continue ?s1 (stp @ [second_chance cell])"
    using ne hd r Cons.prems(1) by (rule lru_iteration_second_chance)
  obtain n' where n: "n = Suc n'" using Cons.prems(6) by (cases n) simp_all
  let ?vs = "vs @ [unreferenced u]"
  have 1: "getitem (dict_heap ?s1 ! qa) ''Q00'' < length (list_heap ?s1)"
    using Cons.prems(1) by simp
  have 2: "list_heap ?s1 ! getitem (dict_heap ?s1 ! qa) ''Q00'' = us @ ?vs"
    using Cons.prems(1,2) u by (simp add: unreferenced_def)
  have 3: "\<forall>e \<in> set us. referenced e" using Cons.prems(3) by simp
  have 4: "?vs \<noteq> [] \<longrightarrow> \<not> referenced (hd ?vs)"
    using Cons.prems(4) by (cases vs) (simp_all add: unreferenced_def referenced_def)
  have 5: "us @ ?vs \<noteq> []" by simp
  have 6: "length us < n'" using Cons.prems(6) n by simp
  from Cons.IH[OF 1 2 3 4 5 6, where stp = "stp @ [second_chance cell]"]
  obtain s' where s': "lru_loop n' qb qa ?s1 (stp @ [second_chance cell]) =
           (Inr \<lparr>victim_cell = fst (hd (?vs @ map unreferenced us)), victim_R = 0,
                  victim_C = snd (snd (hd (?vs @ map unreferenced us))),
                  needs_pageout = (snd (snd (hd (?vs @ map unreferenced us))) = 1),
                  steps = (stp @ [second_chance cell]) @ map (\<lambda>e. second_chance (fst e)) us
                    @ [victim_found (fst (hd (?vs @ map unreferenced us))) 0
                         (snd (snd (hd (?vs @ map unreferenced us))))],
                  queues_before = qb, queues_after = qa\<rparr>, s')"
    by blast
  have e: "?vs @ map unreferenced us = vs @ map unreferenced (u # us)" by simp
  have "lru_loop n qb qa s stp = lru_loop n' qb qa ?s1 (stp @ [second_chance cell])"
    unfolding n by (simp add: it)
  then show ?case unfolding s' e using u by simp
qed

lemma second_chance_phase_limit:
  assumes "getitem (dict_heap s ! qa) ''Q00'' < length (list_heap s)"
    and "list_heap s ! getitem (dict_heap s ! qa) ''Q00'' = us @ vs"
    and "\<forall>e \<in> set us. referenced e"
    and "n \<le> length us"
  shows "fst (lru_loop n qb qa s stp) = Inl RuntimeError_limit"
  using assms
proof (induction n arbitrary: us vs s stp)
  case 0
  then show ?case by simp
next
  case (Suc n)
  let ?a = "getitem (dict_heap s ! qa) ''Q00''"
  obtain u us' where us: "us = u # us'" using Suc.prems(4) by (cases us) simp_all
  obtain cell r c where u: "u = (cell, r, c)" by (cases u)
  have r: "r \<noteq> 0" using Suc.prems(3) us u by (simp add: referenced_def)
  have ne: "list_heap s ! ?a \<noteq> []" and hd: "hd (list_heap s ! ?a) = (cell, r, c)"
    using Suc.prems(2) us u by simp_all
  let ?s1 = "s\<lparr>list_heap := (list_heap s)[?a := tl (list_heap s ! ?a) @ [(cell, 0, c)]]\<rparr>"
  have it: "lru_iteration qb qa s stp = Continue ?s1 (stp @ [second_chance cell])"
    using ne hd r Suc.prems(1) by (rule lru_iteration_second_chance)
  have 1: "getitem (dict_heap ?s1 ! qa) ''Q00'' < length (list_heap ?s1)"
    using Suc.prems(1) by simp
  have 2: "list_heap ?s1 ! getitem (dict_heap ?s1 ! qa) ''Q00'' = us' @ (vs @ [(cell, 0, c)])"
    using Suc.prems(1,2) us by simp
  have 3: "\<forall>e \<in> set us'. referenced e" using Suc.prems(3) us by simp
  have 4: "n \<le> length us'" using Suc.prems(4) us by simp
  have "fst (lru_loop n qb qa ?s1 (stp @ [second_chance cell])) = Inl RuntimeError_limit"
    using 1 2 3 4 by (rule Suc.IH)
  then show ?case by (simp add: it)
qed

lemma expected_steps_length:
  "length (expected_steps ts) = expected_rotations ts + length (expected_chances ts) + 1"
  by (simp add: expected_steps_def)

lemma run_lru_outcome:
  assumes "valid_at s queues"
  shows "(if \<forall>q \<in> set (tiers s queues). q = []
          then fst (run_lru_second_chance queues s) = Inl RuntimeError_no_victim
          else if length (expected_steps (tiers s queues)) \<le> 1000
          then (\<exists>s'. run_lru_second_chance queues s =
                  (Inr \<lparr>victim_cell = fst (expected_victim (tiers s queues)), victim_R = 0,
                         victim_C = snd (snd (expected_victim (tiers s queues))),
                         needs_pageout = (snd (snd (expected_victim (tiers s queues))) = 1),
                         steps = expected_steps (tiers s queues),
                         queues_before = length (dict_heap s),
                         queues_after = Suc (length (dict_heap s))\<rparr>, s'))
          else fst (run_lru_second_chance queues s) = Inl RuntimeError_limit)"
proof -
  let ?ts = "tiers s queues"
  let ?qb = "length (dict_heap s)"
  let ?qa = "Suc (length (dict_heap s))"
  obtain res s' where run: "run_lru_second_chance queues s = (res, s')"
    by (cases "run_lru_second_chance queues s")
  show ?thesis
  proof (rule run_lru_unfold[OF assms run])
    fix s1 s3
    assume l: "lru_loop 1000 ?qb ?qa s3 [] = (res, s')"
      and a3: "?qa < length (dict_heap s3)"
      and hq: "has_queues (dict_heap s3 ! ?qa)"
      and rq: "refs_within (length (list_heap s1)) (list_heap s3) (dict_heap s3 ! ?qa)"
      and qo: "\<forall>k. queue_at s3 ?qa k = queue_at s queues k"
    have ts: "tiers s3 ?qa = ?ts" using qo by (simp add: tiers_def)
    have "refs_within 0 (list_heap s3) (dict_heap s3 ! ?qa)"
      using rq by (auto simp: refs_within_def)
    then have v3: "valid_at s3 ?qa" using a3 by (simp add: valid_at_def valid_refs_within)
    show ?thesis
    proof (cases "\<forall>q \<in> set ?ts. q = []")
      case True
      have "list_heap s3 ! getitem (dict_heap s3 ! ?qa) k = []" if "k \<in> set QUEUE_ORDER" for k
      proof -
        have "queue_at s3 ?qa k = list_heap s3 ! getitem (dict_heap s3 ! ?qa) k"
          using hq that by (intro queue_at_getitem) (simp add: has_queues_def)
        moreover have "queue_at s queues k \<in> set ?ts" using that by (simp add: tiers_def)
        ultimately show ?thesis using True qo by simp
      qed
      then have "lru_loop (Suc 999) ?qb ?qa s3 [] = (Inl RuntimeError_no_victim, s3)"
        by (intro lru_loop_all_empty) simp
      then have "fst (run_lru_second_chance queues s) = Inl RuntimeError_no_victim"
        using l run by simp
      then show ?thesis using True by simp
    next
      case False
      let ?j = "expected_rotations ?ts"
      let ?xs = "front_queue ?ts"
      let ?us = "takeWhile referenced ?xs"
      let ?vs = "dropWhile referenced ?xs"
      have "?j \<le> length ?ts" unfolding expected_rotations_def by (rule length_takeWhile_le)
      then have j5: "?j \<le> 5" by (simp add: tiers_def QUEUE_ORDER_def)
      then have j: "?j \<le> 1000" by simp
      have ne3: "\<not> (\<forall>q \<in> set (tiers s3 ?qa). q = [])" using False ts by simp
      from rotation_phase[OF ts[symmetric, THEN arg_cong, of expected_rotations] v3 hq ne3 j,
          where stp = "[]" and qb = ?qb]
      obtain s4 where s4:
        "lru_loop 1000 ?qb ?qa s3 [] = lru_loop (1000 - ?j) ?qb ?qa s4 ([] @ replicate ?j rotate_queues)"
        "valid_at s4 ?qa" "has_queues (dict_heap s4 ! ?qa)"
        "queue_at s4 ?qa ''Q00'' = ?xs" "?xs \<noteq> []"
        unfolding ts by blast
      have p: "map_of (dict_heap s4 ! ?qa) ''Q00'' \<noteq> None"
        using s4(3) by (simp add: has_queues_def QUEUE_ORDER_def)
      have r4: "refs_within 0 (list_heap s4) (dict_heap s4 ! ?qa)"
        using s4(2) by (simp add: valid_at_def valid_refs_within)
      have a: "getitem (dict_heap s4 ! ?qa) ''Q00'' < length (list_heap s4)"
        using refs_within_getitem[OF r4 p] by simp
      have xs: "list_heap s4 ! getitem (dict_heap s4 ! ?qa) ''Q00'' = ?us @ ?vs"
        using s4(4) queue_at_getitem[OF p] by simp
      have us: "\<forall>e \<in> set ?us. referenced e" by (auto dest: set_takeWhileD)
      have vs: "?vs \<noteq> [] \<longrightarrow> \<not> referenced (hd ?vs)"
        using hd_dropWhile[of referenced ?xs] by blast
      have uv: "?us @ ?vs \<noteq> []" using s4(5) by simp
      have len: "length (expected_steps ?ts) = ?j + length ?us + 1"
        by (simp add: expected_steps_length expected_chances_def)
      show ?thesis
      proof (cases "length (expected_steps ?ts) \<le> 1000")
        case True
        then have lt: "length ?us < 1000 - ?j" using len by simp
        from second_chance_phase_victim[OF a xs us vs uv lt,
            where qb = ?qb and stp = "[] @ replicate ?j rotate_queues"]
        obtain s5 where s5: "lru_loop (1000 - ?j) ?qb ?qa s4 ([] @ replicate ?j rotate_queues) =
           (Inr \<lparr>victim_cell = fst (hd (?vs @ map unreferenced ?us)), victim_R = 0,
                  victim_C = snd (snd (hd (?vs @ map unreferenced ?us))),
                  needs_pageout = (snd (snd (hd (?vs @ map unreferenced ?us))) = 1),
                  steps = ([] @ replicate ?j rotate_queues) @ map (\<lambda>e. second_chance (fst e)) ?us
                    @ [victim_found (fst (hd (?vs @ map unreferenced ?us))) 0
                         (snd (snd (hd (?vs @ map unreferenced ?us))))],
                  queues_before = ?qb, queues_after = ?qa\<rparr>, s5)"
          by blast
        have "run_lru_second_chance queues s =
           (Inr \<lparr>victim_cell = fst (hd (?vs @ map unreferenced ?us)), victim_R = 0,
                  victim_C = snd (snd (hd (?vs @ map unreferenced ?us))),
                  needs_pageout = (snd (snd (hd (?vs @ map unreferenced ?us))) = 1),
                  steps = ([] @ replicate ?j rotate_queues) @ map (\<lambda>e. second_chance (fst e)) ?us
                    @ [victim_found (fst (hd (?vs @ map unreferenced ?us))) 0
                         (snd (snd (hd (?vs @ map unreferenced ?us))))],
                  queues_before = ?qb, queues_after = ?qa\<rparr>, s5)"
          using run l s4(1) s5 by simp
        then have "\<exists>s'. run_lru_second_chance queues s =
                  (Inr \<lparr>victim_cell = fst (expected_victim ?ts), victim_R = 0,
                         victim_C = snd (snd (expected_victim ?ts)),
                         needs_pageout = (snd (snd (expected_victim ?ts)) = 1),
                         steps = expected_steps ?ts,
                         queues_before = ?qb, queues_after = ?qa\<rparr>, s')"
          by (simp add: expected_victim_def expected_steps_def expected_chances_def)
        then show ?thesis using False True by auto
      next
        case False': False
        then have ge: "1000 - ?j \<le> length ?us" using len by simp
        have "fst (lru_loop (1000 - ?j) ?qb ?qa s4 ([] @ replicate ?j rotate_queues))
                = Inl RuntimeError_limit"
          using a xs us ge by (rule second_chance_phase_limit)
        then have "fst (run_lru_second_chance queues s) = Inl RuntimeError_limit"
          using run l s4(1) by simp
        then show ?thesis using False False' by auto
      qed
    qed
  qed
qed

text \<open>
  C2. The evictor terminates on every input, and its outcome is fixed by the queues and
  the cap of 1000 iterations. When all five queues are empty it raises the no-victim
  error. Otherwise it needs one iteration for every rotation, one for every second chance
  and one for the victim: when these are at most 1000 it returns the victim, with
  \<open>R = 0\<close> and the steps logged, after at most 1000 iterations; when they are more, it
  raises the iteration-limit error.
\<close>

theorem run_lru_terminates:
  assumes "valid_at s queues"
  shows "(if \<forall>q \<in> set (tiers s queues). q = []
          then fst (run_lru_second_chance queues s) = Inl RuntimeError_no_victim
          else if length (expected_steps (tiers s queues)) \<le> 1000
          then (\<exists>r s'. run_lru_second_chance queues s = (Inr r, s')
                  \<and> victim_cell r = fst (expected_victim (tiers s queues))
                  \<and> victim_R r = 0
                  \<and> victim_C r = snd (snd (expected_victim (tiers s queues)))
                  \<and> needs_pageout r = (victim_C r = 1)
                  \<and> steps r = expected_steps (tiers s queues)
                  \<and> length (steps r) \<le> 1000)
          else fst (run_lru_second_chance queues s) = Inl RuntimeError_limit)"
proof (cases "\<forall>q \<in> set (tiers s queues). q = []")
  case True
  then show ?thesis using run_lru_outcome[OF assms] by simp
next
  case False
  show ?thesis
  proof (cases "length (expected_steps (tiers s queues)) \<le> 1000")
    case True
    then obtain s' where "run_lru_second_chance queues s =
                  (Inr \<lparr>victim_cell = fst (expected_victim (tiers s queues)), victim_R = 0,
                         victim_C = snd (snd (expected_victim (tiers s queues))),
                         needs_pageout = (snd (snd (expected_victim (tiers s queues))) = 1),
                         steps = expected_steps (tiers s queues),
                         queues_before = length (dict_heap s),
                         queues_after = Suc (length (dict_heap s))\<rparr>, s')"
      using run_lru_outcome[OF assms] False by auto
    then have "\<exists>r s'. run_lru_second_chance queues s = (Inr r, s')
                  \<and> victim_cell r = fst (expected_victim (tiers s queues))
                  \<and> victim_R r = 0
                  \<and> victim_C r = snd (snd (expected_victim (tiers s queues)))
                  \<and> needs_pageout r = (victim_C r = 1)
                  \<and> steps r = expected_steps (tiers s queues)
                  \<and> length (steps r) \<le> 1000"
      using True by simp
    then show ?thesis using False True by auto
  next
    case False': False
    then show ?thesis using run_lru_outcome[OF assms] False by auto
  qed
qed

text \<open>
  C2, at concrete inputs: two second chances and then the victim of frame 3; an empty
  queue set; 1000 referenced entries, which exhaust the cap; and one rotation followed by
  998 second chances, where the victim is found in the 1000th iteration.
\<close>

theorem run_lru_terminates_witness:
  "(\<exists>r s'. run_lru_second_chance 0
        \<lparr>list_heap = [[(1, 1, 0), (2, 1, 0), (3, 0, 0)]], dict_heap = [[(''Q00'', 0)]]\<rparr>
        = (Inr r, s')
      \<and> victim_cell r = 3 \<and> victim_R r = 0 \<and> victim_C r = 0
      \<and> steps r = [second_chance 1, second_chance 2, victim_found 3 0 0])
   \<and> fst (run_lru_second_chance 0 \<lparr>list_heap = [[]], dict_heap = [[(''Q00'', 0)]]\<rparr>)
       = Inl RuntimeError_no_victim
   \<and> fst (run_lru_second_chance 0
        \<lparr>list_heap = [replicate 1000 (1, 1, 0)], dict_heap = [[(''Q00'', 0)]]\<rparr>)
       = Inl RuntimeError_limit
   \<and> (\<exists>r s'. run_lru_second_chance 0
        \<lparr>list_heap = [replicate 998 (1, 1, 1)], dict_heap = [[(''Q01'', 0)]]\<rparr>
        = (Inr r, s')
      \<and> victim_cell r = 1 \<and> victim_R r = 0 \<and> victim_C r = 1 \<and> length (steps r) = 1000)"
proof -
  note defs = tiers_def queue_at_def queue_of_def QUEUE_ORDER_def valid_at_def valid_refs_def
    expected_steps_def expected_victim_def expected_chances_def expected_rotations_def
    front_queue_def referenced_def unreferenced_def
  let ?s1 = "\<lparr>list_heap = [[(1, 1, 0), (2, 1, 0), (3, 0, 0)]], dict_heap = [[(''Q00'', 0)]]\<rparr>"
  let ?s2 = "\<lparr>list_heap = [[]], dict_heap = [[(''Q00'', 0)]]\<rparr> :: store"
  let ?s3 = "\<lparr>list_heap = [replicate 1000 (1, 1, 0)], dict_heap = [[(''Q00'', 0)]]\<rparr>"
  let ?s4 = "\<lparr>list_heap = [replicate 998 (1, 1, 1)], dict_heap = [[(''Q01'', 0)]]\<rparr>"
  have v1: "valid_at ?s1 0" by (simp add: defs)
  have v2: "valid_at ?s2 0" by (simp add: defs)
  have v3: "valid_at ?s3 0" by (simp add: defs)
  have v4: "valid_at ?s4 0" by (simp add: defs)
  have 1: "\<exists>r s'. run_lru_second_chance 0 ?s1 = (Inr r, s')
      \<and> victim_cell r = 3 \<and> victim_R r = 0 \<and> victim_C r = 0
      \<and> steps r = [second_chance 1, second_chance 2, victim_found 3 0 0]"
    using run_lru_terminates[OF v1] by (auto simp add: defs)
  have 2: "fst (run_lru_second_chance 0 ?s2) = Inl RuntimeError_no_victim"
    using run_lru_terminates[OF v2] by (simp add: defs)
  have 3: "fst (run_lru_second_chance 0 ?s3) = Inl RuntimeError_limit"
    using run_lru_terminates[OF v3] by (simp add: defs)
  have 4: "\<exists>r s'. run_lru_second_chance 0 ?s4 = (Inr r, s')
      \<and> victim_cell r = 1 \<and> victim_R r = 0 \<and> victim_C r = 1 \<and> length (steps r) = 1000"
    using run_lru_terminates[OF v4] by (auto simp add: defs)
  show ?thesis using 1 2 3 4 by (intro conjI)
qed

text \<open>
  C9, at a concrete input whose dictionary lacks three of the queue names: the caller's
  dictionary object still has its two keys.
\<close>

theorem run_lru_frame_witness:
  "\<exists>r s'. run_lru_second_chance 0
      \<lparr>list_heap = [[(17, 1, 0), (25, 0, 1)], []],
        dict_heap = [[(''Q00'', 0), (''Q01'', 1)]]\<rparr> = (Inr r, s')
     \<and> take 1 (dict_heap s') = [[(''Q00'', 0), (''Q01'', 1)]]
     \<and> take 2 (list_heap s') = [[(17, 1, 0), (25, 0, 1)], []]
     \<and> contents_at s' 0 = [(''Q00'', [(17, 1, 0), (25, 0, 1)]), (''Q01'', [])]
     \<and> contents_at s' (queues_before r) = [(''Q00'', [(17, 1, 0), (25, 0, 1)]), (''Q01'', [])]
     \<and> 1 \<le> queues_before r \<and> 1 \<le> queues_after r"
proof -
  let ?s = "\<lparr>list_heap = [[(17, 1, 0), (25, 0, 1)], []],
        dict_heap = [[(''Q00'', 0), (''Q01'', 1)]]\<rparr>"
  have v: "valid_at ?s 0" by (simp add: valid_at_def valid_refs_def)
  have "\<exists>r s'. run_lru_second_chance 0 ?s = (Inr r, s')"
    using run_lru_outcome[OF v]
    by (auto simp add: tiers_def queue_at_def queue_of_def QUEUE_ORDER_def
        expected_steps_def expected_chances_def expected_rotations_def front_queue_def
        referenced_def)
  then obtain r s' where r: "run_lru_second_chance 0 ?s = (Inr r, s')" by blast
  from run_lru_frame[OF v r] r show ?thesis
    by (auto simp: contents_at_def contents_def numeral_2_eq_2)
qed

section \<open>Rotation\<close>




lemma hq_scenario_run:
  "run_lru_second_chance 0
      \<lparr>list_heap = [[], [(5, 0, 0)], [], [], [(7, 1, 1)]],
       dict_heap = [[(''Q00'', 0), (''Q01'', 1), (''Q10'', 2), (''Q11'', 3), (''HQ'', 4)]]\<rparr>
   = (Inr \<lparr>victim_cell = 5, victim_R = 0, victim_C = 0, needs_pageout = False,
           steps = [rotate_queues, victim_found 5 0 0],
           queues_before = 1, queues_after = 2\<rparr>,
      \<lparr>list_heap = [[], [(5, 0, 0)], [], [], [(7, 1, 1)],
                     [], [(5, 0, 0)], [], [], [(7, 1, 1)],
                     [], [], [], [], [(7, 1, 1)], []],
       dict_heap =
         [[(''Q00'', 0), (''Q01'', 1), (''Q10'', 2), (''Q11'', 3), (''HQ'', 4)],
          [(''Q00'', 5), (''Q01'', 6), (''Q10'', 7), (''Q11'', 8), (''HQ'', 9)],
          [(''Q00'', 11), (''Q01'', 12), (''Q10'', 13), (''Q11'', 14), (''HQ'', 15)]]\<rparr>)"
  by code_simp

text \<open>
  C6, as the code has it. With \<open>(7, 1, 1)\<close> in \<open>HQ\<close>, one rotation later the entry is in
  \<open>Q11\<close> of the working queue set.
\<close>

theorem rotation_discards_HQ_counterexample:
  "steps (projr (fst (run_lru_second_chance 0
      \<lparr>list_heap = [[], [(5, 0, 0)], [], [], [(7, 1, 1)]],
       dict_heap = [[(''Q00'', 0), (''Q01'', 1), (''Q10'', 2), (''Q11'', 3), (''HQ'', 4)]]\<rparr>)))
     = [rotate_queues, victim_found 5 0 0]
   \<and> queue_at
        (snd (run_lru_second_chance 0
          \<lparr>list_heap = [[], [(5, 0, 0)], [], [], [(7, 1, 1)]],
           dict_heap = [[(''Q00'', 0), (''Q01'', 1), (''Q10'', 2), (''Q11'', 3), (''HQ'', 4)]]\<rparr>))
        (queues_after (projr (fst (run_lru_second_chance 0
          \<lparr>list_heap = [[], [(5, 0, 0)], [], [], [(7, 1, 1)]],
           dict_heap = [[(''Q00'', 0), (''Q01'', 1), (''Q10'', 2), (''Q11'', 3), (''HQ'', 4)]]\<rparr>))))
        ''Q11''
     = [(7, 1, 1)]"
  unfolding hq_scenario_run by (simp add: queue_at_def queue_of_def)

text \<open>
  C6, amended. After a rotation \<open>HQ\<close> is empty and its former contents are kept: they
  are the contents of \<open>Q11\<close>.
\<close>

theorem rotation_moves_HQ_to_Q11:
  assumes "valid_at s qa" and "has_queues_at s qa"
    and "queue_at s qa ''Q00'' = []"
    and "\<exists>k \<in> set (tl QUEUE_ORDER). queue_at s qa k \<noteq> []"
  shows "\<exists>s'. lru_iteration qb qa s stp = Continue s' (stp @ [rotate_queues])
            \<and> queue_at s' qa ''HQ'' = []
            \<and> queue_at s' qa ''Q11'' = queue_at s qa ''HQ''"
proof -
  have qa: "qa < length (dict_heap s)" using assms(1) by (simp add: valid_at_def)
  have hq: "has_queues (dict_heap s ! qa)" using assms(2) by (simp add: has_queues_at_def)
  show ?thesis
    using rotation_fires[OF qa hq assms(3,4), of qb stp] rotated_store(4,5)[OF assms(1) hq refl]
    by blast
qed

text \<open>C6 amended, at a concrete state.\<close>

theorem rotation_moves_HQ_to_Q11_witness:
  "\<exists>s'. lru_iteration 0 0
           \<lparr>list_heap = [[], [], [], [(3, 1, 0)], [(7, 1, 1), (9, 0, 0)]],
            dict_heap = [[(''Q00'', 0), (''Q01'', 1), (''Q10'', 2), (''Q11'', 3), (''HQ'', 4)]]\<rparr>
           [] = Continue s' [rotate_queues]
     \<and> queue_at s' 0 ''HQ'' = []
     \<and> queue_at s' 0 ''Q11'' = [(7, 1, 1), (9, 0, 0)]"
proof -
  let ?s = "\<lparr>list_heap = [[], [], [], [(3, 1, 0)], [(7, 1, 1), (9, 0, 0)]],
            dict_heap = [[(''Q00'', 0), (''Q01'', 1), (''Q10'', 2), (''Q11'', 3), (''HQ'', 4)]]\<rparr>"
  have 1: "valid_at ?s 0" by (simp add: valid_at_def valid_refs_def)
  have 2: "has_queues_at ?s 0" by (simp add: has_queues_at_def has_queues_def QUEUE_ORDER_def)
  have 3: "queue_at ?s 0 ''Q00'' = []" by (simp add: queue_at_def queue_of_def)
  have 4: "\<exists>k \<in> set (tl QUEUE_ORDER). queue_at ?s 0 k \<noteq> []"
    by (simp add: queue_at_def queue_of_def QUEUE_ORDER_def)
  have 5: "queue_at ?s 0 ''HQ'' = [(7, 1, 1), (9, 0, 0)]"
    by (simp add: queue_at_def queue_of_def)
  from rotation_moves_HQ_to_Q11[OF 1 2 3 4, of 0 "[]"] show ?thesis
    unfolding 5 by auto
qed

section \<open>The orchestrator\<close>

lemma replicate_numeral: "replicate (numeral k) x = x # replicate (pred_numeral k) x"
  by (simp add: numeral_eq_Suc)

lemma decompose_d_bin:
  assumes "decompose_virtual_address dv = Inr addr"
  shows "py_int (d_bin addr) 2 = Inr (d_dec addr)"
proof -
  obtain v where v: "py_int dv 16 = Inr v"
    using assms by (auto simp: decompose_virtual_address_def split: sum.splits)
  have d: "d_bin addr = zfill_format 2 11 (v AND 0x7FF)" "d_dec addr = v AND 0x7FF"
    using assms v by (auto simp: decompose_virtual_address_def Let_def)
  have "0 \<le> v AND 0x7FF" by (simp add: and_2047)
  then show ?thesis unfolding d by (intro py_int_zfill_format) simp_all
qed

lemmas eval_defs = decompose_virtual_address_def analyze_pte_def py_int_def digit_val_def
  zfill_format_def to_base.simps digit_char_def Let_def PAGES_PER_SEGMENT_def PAGE_SIZE_def
  calculate_real_address_def calculate_epa_def py_floordiv_def py_mod_def calculate_dc_def
  build_new_pte_def identify_evicted_page_def upper_def upper_char_def calculate_num_cells_def
  DISK_MODELS_def replicate_numeral solve_full_exercise_def eviction_steps_def

lemma single_queue_run:
  "\<exists>s'. run_lru_second_chance 0 \<lparr>list_heap = [[(24, 0, 1)]], dict_heap = [[(''Q00'', 0)]]\<rparr> =
     (Inr \<lparr>victim_cell = 24, victim_R = 0, victim_C = 1, needs_pageout = True,
            steps = [victim_found 24 0 1],
            queues_before = Suc 0, queues_after = Suc (Suc 0)\<rparr>, s')"
proof -
  have v: "valid_at \<lparr>list_heap = [[(24, 0, 1)]], dict_heap = [[(''Q00'', 0)]]\<rparr> 0"
    by (simp add: valid_at_def valid_refs_def)
  show ?thesis
    using run_lru_outcome[OF v]
    by (simp add: tiers_def queue_at_def queue_of_def QUEUE_ORDER_def
        expected_steps_def expected_victim_def expected_chances_def expected_rotations_def
        front_queue_def referenced_def unreferenced_def)
qed

text \<open>
  C1, as the code has it. On a fault with queues and without the stored locator, the
  translation completes: the victim is dirty, and neither the evicted page nor the page-out
  is computed.
\<close>

theorem fault_without_pfte_counterexample:
  "is_page_fault (projr (analyze_pte ''103C''))
   \<and> \<not> isl (fst (solve_full_exercise DISK_MODELS ''03FFA3'' ''103C'' 100 ''3330'' (Some 0) None
                  \<lparr>list_heap = [[(24, 0, 1)]], dict_heap = [[(''Q00'', 0)]]\<rparr>))
   \<and> needs_pageout (the (lru (projr (fst (solve_full_exercise DISK_MODELS ''03FFA3'' ''103C'' 100
                  ''3330'' (Some 0) None
                  \<lparr>list_heap = [[(24, 0, 1)]], dict_heap = [[(''Q00'', 0)]]\<rparr>)))))
   \<and> evicted (projr (fst (solve_full_exercise DISK_MODELS ''03FFA3'' ''103C'' 100 ''3330''
                  (Some 0) None
                  \<lparr>list_heap = [[(24, 0, 1)]], dict_heap = [[(''Q00'', 0)]]\<rparr>))) = None
   \<and> page_out (projr (fst (solve_full_exercise DISK_MODELS ''03FFA3'' ''103C'' 100 ''3330''
                  (Some 0) None
                  \<lparr>list_heap = [[(24, 0, 1)]], dict_heap = [[(''Q00'', 0)]]\<rparr>))) = None"
proof -
  from single_queue_run obtain s' where
    r: "run_lru_second_chance 0 \<lparr>list_heap = [[(24, 0, 1)]], dict_heap = [[(''Q00'', 0)]]\<rparr> =
     (Inr \<lparr>victim_cell = 24, victim_R = 0, victim_C = 1, needs_pageout = True,
            steps = [victim_found 24 0 1],
            queues_before = Suc 0, queues_after = Suc (Suc 0)\<rparr>, s')"
    by blast
  show ?thesis by (simp add: eval_defs r)
qed

text \<open>
  C1, amended. On a fault, absent queues raise \<open>ValueError\<close>. With queues the evictor
  always runs, and its error is the translation's. The stored locator is optional. With
  it, the evicted page is always identified, and the page-out is computed exactly when
  the victim is dirty. Without it, the translation completes all the same, with the
  victim, the page-in, the new entries and the real address, and without the evicted
  page and the page-out.
\<close>

theorem fault_inputs_contract:
  assumes "map_of models dm = Some disk"
    and "decompose_virtual_address dv = Inr addr"
    and "analyze_pte pte_s = Inr p"
    and "is_page_fault p"
  shows "fst (solve_full_exercise models dv pte_s rsize_kb dm None pfte h) = Inl ValueError
       \<and> (\<forall>qs e h'. run_lru_second_chance qs h = (Inl e, h') \<longrightarrow>
            solve_full_exercise models dv pte_s rsize_kb dm (Some qs) pfte h = (Inl e, h'))
       \<and> (\<forall>qs l h'. run_lru_second_chance qs h = (Inr l, h')
              \<and> tracks_per_cyl disk \<noteq> 0 \<and> slots_per_track disk \<noteq> 0 \<longrightarrow>
            (\<exists>epa_in ra.
               calculate_epa (num_abs_page addr) (tracks_per_cyl disk) (slots_per_track disk)
                 = Inr epa_in
             \<and> calculate_real_address (victim_cell l) (d_bin addr) = Inr ra
             \<and> dr_dec ra = victim_cell l * 2048 + d_dec addr
             \<and> solve_full_exercise models dv pte_s rsize_kb dm (Some qs) None h =
                 (Inr \<lparr>address = addr, num_cells = rsize_kb div 2, pte = p, disk_model = dm,
                        page_fault = True, lru = Some l, evicted = None, page_out = None,
                        page_in = Some \<lparr>pt_epa = epa_in, pt_dc = calculate_dc (victim_cell l)\<rparr>,
                        new_ptes = Some (build_new_pte (victim_cell l)), real_addr = ra\<rparr>, h')
             \<and> (\<forall>loc e. identify_evicted_page loc = Inl e \<longrightarrow>
                   solve_full_exercise models dv pte_s rsize_kb dm (Some qs) (Some loc) h
                     = (Inl e, h'))
             \<and> (\<forall>loc ev. identify_evicted_page loc = Inr ev \<longrightarrow>
                  (\<exists>epa_out.
                     calculate_epa (ev_num_abs_page ev) (tracks_per_cyl disk)
                       (slots_per_track disk) = Inr epa_out
                   \<and> solve_full_exercise models dv pte_s rsize_kb dm (Some qs) (Some loc) h =
                       (Inr \<lparr>address = addr, num_cells = rsize_kb div 2, pte = p,
                              disk_model = dm, page_fault = True, lru = Some l,
                              evicted = Some ev,
                              page_out =
                                (if needs_pageout l
                                 then Some \<lparr>pt_epa = epa_out,
                                            pt_dc = calculate_dc (victim_cell l)\<rparr>
                                 else None),
                              page_in = Some \<lparr>pt_epa = epa_in,
                                              pt_dc = calculate_dc (victim_cell l)\<rparr>,
                              new_ptes = Some (build_new_pte (victim_cell l)),
                              real_addr = ra\<rparr>, h')))))"
proof (intro conjI allI impI)
  show "fst (solve_full_exercise models dv pte_s rsize_kb dm None pfte h) = Inl ValueError"
    using assms by (simp add: solve_full_exercise_def)
next
  fix qs e h'
  assume "run_lru_second_chance qs h = (Inl e, h')"
  then show "solve_full_exercise models dv pte_s rsize_kb dm (Some qs) pfte h = (Inl e, h')"
    using assms by (simp add: solve_full_exercise_def)
next
  fix qs l h'
  assume a: "run_lru_second_chance qs h = (Inr l, h')
              \<and> tracks_per_cyl disk \<noteq> 0 \<and> slots_per_track disk \<noteq> 0"
  let ?tpc = "tracks_per_cyl disk"
  let ?spt = "slots_per_track disk"
  obtain epa_in where e: "calculate_epa (num_abs_page addr) ?tpc ?spt = Inr epa_in"
    using a by (simp add: epa_fields)
  obtain ra where ra: "calculate_real_address (victim_cell l) (d_bin addr) = Inr ra"
    and dr: "dr_dec ra = victim_cell l * 2048 + d_dec addr"
    by (simp add: calculate_real_address_def decompose_d_bin[OF assms(2)] Let_def PAGE_SIZE_def)
  have none: "solve_full_exercise models dv pte_s rsize_kb dm (Some qs) None h =
                 (Inr \<lparr>address = addr, num_cells = rsize_kb div 2, pte = p, disk_model = dm,
                        page_fault = True, lru = Some l, evicted = None, page_out = None,
                        page_in = Some \<lparr>pt_epa = epa_in, pt_dc = calculate_dc (victim_cell l)\<rparr>,
                        new_ptes = Some (build_new_pte (victim_cell l)), real_addr = ra\<rparr>, h')"
    using assms a e ra
    by (simp add: solve_full_exercise_def eviction_steps_def Let_def calculate_num_cells_def)
  have bad: "solve_full_exercise models dv pte_s rsize_kb dm (Some qs) (Some loc) h = (Inl er, h')"
    if "identify_evicted_page loc = Inl er" for loc er
    using assms a that
    by (simp add: solve_full_exercise_def eviction_steps_def Let_def)
  have some: "\<exists>epa_out.
                     calculate_epa (ev_num_abs_page ev) ?tpc ?spt = Inr epa_out
                   \<and> solve_full_exercise models dv pte_s rsize_kb dm (Some qs) (Some loc) h =
                       (Inr \<lparr>address = addr, num_cells = rsize_kb div 2, pte = p,
                              disk_model = dm, page_fault = True, lru = Some l,
                              evicted = Some ev,
                              page_out =
                                (if needs_pageout l
                                 then Some \<lparr>pt_epa = epa_out,
                                            pt_dc = calculate_dc (victim_cell l)\<rparr>
                                 else None),
                              page_in = Some \<lparr>pt_epa = epa_in,
                                              pt_dc = calculate_dc (victim_cell l)\<rparr>,
                              new_ptes = Some (build_new_pte (victim_cell l)),
                              real_addr = ra\<rparr>, h')"
    if i: "identify_evicted_page loc = Inr ev" for loc ev
  proof -
    obtain epa_out where o: "calculate_epa (ev_num_abs_page ev) ?tpc ?spt = Inr epa_out"
      using a by (simp add: epa_fields)
    show ?thesis
      using assms a e ra i o
      by (simp add: solve_full_exercise_def eviction_steps_def Let_def calculate_num_cells_def)
  qed
  show "\<exists>epa_in ra.
               calculate_epa (num_abs_page addr) ?tpc ?spt = Inr epa_in
             \<and> calculate_real_address (victim_cell l) (d_bin addr) = Inr ra
             \<and> dr_dec ra = victim_cell l * 2048 + d_dec addr
             \<and> solve_full_exercise models dv pte_s rsize_kb dm (Some qs) None h =
                 (Inr \<lparr>address = addr, num_cells = rsize_kb div 2, pte = p, disk_model = dm,
                        page_fault = True, lru = Some l, evicted = None, page_out = None,
                        page_in = Some \<lparr>pt_epa = epa_in, pt_dc = calculate_dc (victim_cell l)\<rparr>,
                        new_ptes = Some (build_new_pte (victim_cell l)), real_addr = ra\<rparr>, h')
             \<and> (\<forall>loc e. identify_evicted_page loc = Inl e \<longrightarrow>
                   solve_full_exercise models dv pte_s rsize_kb dm (Some qs) (Some loc) h
                     = (Inl e, h'))
             \<and> (\<forall>loc ev. identify_evicted_page loc = Inr ev \<longrightarrow>
                  (\<exists>epa_out.
                     calculate_epa (ev_num_abs_page ev) ?tpc ?spt = Inr epa_out
                   \<and> solve_full_exercise models dv pte_s rsize_kb dm (Some qs) (Some loc) h =
                       (Inr \<lparr>address = addr, num_cells = rsize_kb div 2, pte = p,
                              disk_model = dm, page_fault = True, lru = Some l,
                              evicted = Some ev,
                              page_out =
                                (if needs_pageout l
                                 then Some \<lparr>pt_epa = epa_out,
                                            pt_dc = calculate_dc (victim_cell l)\<rparr>
                                 else None),
                              page_in = Some \<lparr>pt_epa = epa_in,
                                              pt_dc = calculate_dc (victim_cell l)\<rparr>,
                              new_ptes = Some (build_new_pte (victim_cell l)),
                              real_addr = ra\<rparr>, h')))"
    using e ra dr none bad some by blast
qed

text \<open>
  C1 amended, at a concrete input with a dirty victim: without queues, without the locator,
  and with the locator \<open>05A2\<close>.
\<close>

theorem fault_inputs_contract_witness:
  "fst (solve_full_exercise DISK_MODELS ''03FFA3'' ''103C'' 100 ''3330'' None (Some ''05A2'')
          \<lparr>list_heap = [[(24, 0, 1)]], dict_heap = [[(''Q00'', 0)]]\<rparr>) = Inl ValueError
   \<and> (\<exists>r s'. solve_full_exercise DISK_MODELS ''03FFA3'' ''103C'' 100 ''3330'' (Some 0) None
          \<lparr>list_heap = [[(24, 0, 1)]], dict_heap = [[(''Q00'', 0)]]\<rparr> = (Inr r, s')
        \<and> page_fault r \<and> evicted r = None \<and> page_out r = None \<and> page_in r \<noteq> None)
   \<and> (\<exists>r s'. solve_full_exercise DISK_MODELS ''03FFA3'' ''103C'' 100 ''3330'' (Some 0)
          (Some ''05A2'')
          \<lparr>list_heap = [[(24, 0, 1)]], dict_heap = [[(''Q00'', 0)]]\<rparr> = (Inr r, s')
        \<and> page_fault r
        \<and> evicted r = Some \<lparr>pfte_hex = ''05A2'', ev_num_abs_page = 1442, segment = 45, page = 2\<rparr>
        \<and> page_out r \<noteq> None \<and> page_in r \<noteq> None)"
proof -
  let ?S = "\<lparr>list_heap = [[(24, 0, 1)]], dict_heap = [[(''Q00'', 0)]]\<rparr>"
  let ?D = "decompose_virtual_address ''03FFA3''"
  let ?P = "analyze_pte ''103C''"
  let ?l = "\<lparr>victim_cell = 24, victim_R = 0, victim_C = 1, needs_pageout = True,
            steps = [victim_found 24 0 1],
            queues_before = Suc 0, queues_after = Suc (Suc 0)\<rparr>"
  have m: "map_of DISK_MODELS ''3330'' = Some \<lparr>tracks_per_cyl = 19, slots_per_track = 6\<rparr>"
    by (simp add: DISK_MODELS_def)
  have d: "?D = Inr (projr ?D)" by (simp add: eval_defs)
  have p: "?P = Inr (projr ?P)" by (simp add: eval_defs)
  have f: "is_page_fault (projr ?P)" by (simp add: eval_defs)
  from single_queue_run obtain s' where l: "run_lru_second_chance 0 ?S = (Inr ?l, s')"
    by blast
  have i: "identify_evicted_page ''05A2'' =
      Inr \<lparr>pfte_hex = ''05A2'', ev_num_abs_page = 1442, segment = 45, page = 2\<rparr>"
    by (simp add: eval_defs)
  note t = fault_inputs_contract[OF m d p f, of 100 "Some ''05A2''" ?S]
  have 1: "fst (solve_full_exercise DISK_MODELS ''03FFA3'' ''103C'' 100 ''3330'' None (Some ''05A2'')
          ?S) = Inl ValueError"
    using t by (rule conjunct1)
  note u = conjunct2[OF conjunct2[OF t], rule_format, of 0 ?l s']
  have g: "run_lru_second_chance 0 ?S = (Inr ?l, s')
     \<and> tracks_per_cyl \<lparr>tracks_per_cyl = 19, slots_per_track = 6\<rparr> \<noteq> 0
     \<and> slots_per_track \<lparr>tracks_per_cyl = 19, slots_per_track = 6\<rparr> \<noteq> 0"
    using l by simp
  from u[OF g] obtain epa_in ra where
    n: "solve_full_exercise DISK_MODELS ''03FFA3'' ''103C'' 100 ''3330'' (Some 0) None ?S =
          (Inr \<lparr>address = projr ?D, num_cells = 100 div 2, pte = projr ?P,
                 disk_model = ''3330'', page_fault = True, lru = Some ?l, evicted = None,
                 page_out = None,
                 page_in = Some \<lparr>pt_epa = epa_in, pt_dc = calculate_dc (victim_cell ?l)\<rparr>,
                 new_ptes = Some (build_new_pte (victim_cell ?l)), real_addr = ra\<rparr>, s')"
    and w: "\<forall>loc ev. identify_evicted_page loc = Inr ev \<longrightarrow>
        (\<exists>epa_out.
           calculate_epa (ev_num_abs_page ev) (tracks_per_cyl \<lparr>tracks_per_cyl = 19, slots_per_track = 6\<rparr>)
             (slots_per_track \<lparr>tracks_per_cyl = 19, slots_per_track = 6\<rparr>) = Inr epa_out
         \<and> solve_full_exercise DISK_MODELS ''03FFA3'' ''103C'' 100 ''3330'' (Some 0) (Some loc) ?S =
             (Inr \<lparr>address = projr ?D, num_cells = 100 div 2, pte = projr ?P,
                    disk_model = ''3330'', page_fault = True, lru = Some ?l,
                    evicted = Some ev,
                    page_out =
                      (if needs_pageout ?l
                       then Some \<lparr>pt_epa = epa_out, pt_dc = calculate_dc (victim_cell ?l)\<rparr>
                       else None),
                    page_in = Some \<lparr>pt_epa = epa_in, pt_dc = calculate_dc (victim_cell ?l)\<rparr>,
                    new_ptes = Some (build_new_pte (victim_cell ?l)), real_addr = ra\<rparr>, s'))"
    by blast
  have 2: "\<exists>r s'. solve_full_exercise DISK_MODELS ''03FFA3'' ''103C'' 100 ''3330'' (Some 0) None
          ?S = (Inr r, s')
        \<and> page_fault r \<and> evicted r = None \<and> page_out r = None \<and> page_in r \<noteq> None"
    unfolding n by simp
  from w[rule_format, OF i] obtain epa_out where
    y: "solve_full_exercise DISK_MODELS ''03FFA3'' ''103C'' 100 ''3330'' (Some 0) (Some ''05A2'') ?S =
             (Inr \<lparr>address = projr ?D, num_cells = 100 div 2, pte = projr ?P,
                    disk_model = ''3330'', page_fault = True, lru = Some ?l,
                    evicted = Some \<lparr>pfte_hex = ''05A2'', ev_num_abs_page = 1442, segment = 45, page = 2\<rparr>,
                    page_out =
                      (if needs_pageout ?l
                       then Some \<lparr>pt_epa = epa_out, pt_dc = calculate_dc (victim_cell ?l)\<rparr>
                       else None),
                    page_in = Some \<lparr>pt_epa = epa_in, pt_dc = calculate_dc (victim_cell ?l)\<rparr>,
                    new_ptes = Some (build_new_pte (victim_cell ?l)), real_addr = ra\<rparr>, s')"
    by blast
  have 3: "\<exists>r s'. solve_full_exercise DISK_MODELS ''03FFA3'' ''103C'' 100 ''3330'' (Some 0)
          (Some ''05A2'') ?S = (Inr r, s')
        \<and> page_fault r
        \<and> evicted r = Some \<lparr>pfte_hex = ''05A2'', ev_num_abs_page = 1442, segment = 45, page = 2\<rparr>
        \<and> page_out r \<noteq> None \<and> page_in r \<noteq> None"
    unfolding y by simp
  show ?thesis using 1 2 3 by (intro conjI)
qed

text \<open>
  C10. The orchestrator takes the real-memory size \<open>rsize_kb\<close>, and every result, with or
  without a fault, has \<open>num_cells = rsize_kb // 2\<close>.
\<close>

theorem num_cells_always:
  assumes "solve_full_exercise models dv pte_s rsize_kb dm queues pfte h = (Inr r, h')"
  shows "num_cells r = rsize_kb div 2"
  using assms
  by (auto simp: solve_full_exercise_def Let_def calculate_num_cells_def
      split: option.splits sum.splits if_splits prod.splits)

text \<open>C10, without and with a fault, for an odd size.\<close>

theorem num_cells_always_witness:
  "num_cells (projr (fst (solve_full_exercise DISK_MODELS ''03FFA3'' ''05E8'' 101 ''3330''
       None None \<lparr>list_heap = [], dict_heap = []\<rparr>))) = 50
   \<and> num_cells (projr (fst (solve_full_exercise DISK_MODELS ''03FFA3'' ''103C'' 101 ''3330''
       (Some 0) (Some ''05A2'')
       \<lparr>list_heap = [[(24, 0, 1)]], dict_heap = [[(''Q00'', 0)]]\<rparr>))) = 50"
proof -
  let ?A = "solve_full_exercise DISK_MODELS ''03FFA3'' ''05E8'' 101 ''3330'' None None
       \<lparr>list_heap = [], dict_heap = []\<rparr>"
  let ?B = "solve_full_exercise DISK_MODELS ''03FFA3'' ''103C'' 101 ''3330''
       (Some 0) (Some ''05A2'') \<lparr>list_heap = [[(24, 0, 1)]], dict_heap = [[(''Q00'', 0)]]\<rparr>"
  from single_queue_run obtain s' where
    r: "run_lru_second_chance 0 \<lparr>list_heap = [[(24, 0, 1)]], dict_heap = [[(''Q00'', 0)]]\<rparr> =
     (Inr \<lparr>victim_cell = 24, victim_R = 0, victim_C = 1, needs_pageout = True,
            steps = [victim_found 24 0 1],
            queues_before = Suc 0, queues_after = Suc (Suc 0)\<rparr>, s')"
    by blast
  have a: "?A = (Inr (projr (fst ?A)), snd ?A)" by (simp add: eval_defs)
  have b: "?B = (Inr (projr (fst ?B)), snd ?B)" by (simp add: eval_defs r)
  show ?thesis using num_cells_always[OF a] num_cells_always[OF b] by simp
qed

end
